theory Spec2Isabelle
  imports Complex_Main "HOL-Library.Word"
begin

section \<open>Single-precision values\<close>

text \<open>
  The samples of \<^verbatim>\<open>main.c\<close> are C \<^verbatim>\<open>float\<close>s. A finite binary32 value is a
  rational number, so samples are modelled as \<^typ>\<open>rat\<close> and every place where C rounds
  (an \<^verbatim>\<open>F\<close>-suffixed literal, a \<^verbatim>\<open>float\<close> product) applies \<open>binary32\<close>, the
  IEEE 754 rounding to the nearest binary32 value, ties to even: 24 significant bits,
  binades \<open>-126 .. 127\<close>, the spacing of the lowest binade below it. Magnitudes from
  \<open>2 ^ 128\<close> on, infinite in binary32, are outside the model; the table entries and
  their halves are at most 1 in magnitude.
\<close>

type_synonym sample = rat

definition round_half_even :: "rat \<Rightarrow> int" where
  "round_half_even x =
     (let f = \<lfloor>x\<rfloor>; d = x - of_int f
      in if d < 1 / 2 then f else if 1 / 2 < d then f + 1 else if even f then f else f + 1)"

function binade_from :: "int \<Rightarrow> rat \<Rightarrow> int" where
  "binade_from e x = (if e \<le> - 126 \<or> 2 powi e \<le> \<bar>x\<bar> then e else binade_from (e - 1) x)"
  by pat_completeness auto
termination
  by (relation "measure (\<lambda>(e, x). nat (e + 126))") auto

declare binade_from.simps [simp del]

definition binade :: "rat \<Rightarrow> int" where
  "binade x = binade_from 127 x"

definition binary32 :: "rat \<Rightarrow> sample" where
  "binary32 x = (let q = 2 powi (binade x - 23) in of_int (round_half_even (x / q)) * q)"

definition fmul32 :: "sample \<Rightarrow> sample \<Rightarrow> sample" where
  \<comment> \<open>the product of two \<^verbatim>\<open>float\<close>s, as a \<^verbatim>\<open>float\<close>\<close>
  "fmul32 x y = binary32 (x * y)"

section \<open>The sine table\<close>

text \<open>
  \<^verbatim>\<open>static const float sin_table[]\<close>, the 24 literals of the source in order, each
  rounded to binary32 as the \<^verbatim>\<open>F\<close> suffix says. Entry 12 is the literal
  \<^verbatim>\<open>1.2246467991473532e-16F\<close>, written as a fraction.
\<close>

definition sin_table :: "sample list" where
  "sin_table = map binary32
     [0.0,
      0.25881904510252074,
      0.49999999999999994,
      0.7071067811865475,
      0.8660254037844386,
      0.9659258262890682,
      1.0,
      0.9659258262890683,
      0.8660254037844388,
      0.7071067811865476,
      0.5000000000000003,
      0.258819045102521,
      12246467991473532 / 10 ^ 32,
      - 0.25881904510252035,
      - 0.4999999999999998,
      - 0.7071067811865471,
      - 0.8660254037844384,
      - 0.9659258262890681,
      - 1.0,
      - 0.9659258262890684,
      - 0.866025403784439,
      - 0.7071067811865477,
      - 0.5000000000000004,
      - 0.2588190451025215]"

section \<open>Context, packets, states and observable calls\<close>

text \<open>
  \<^verbatim>\<open>struct junk_context\<close>: \<^verbatim>\<open>_Atomic uint8_t rx_phase, tx_phase; bool tx;
  int16_t snr; uint64_t byte_data_counter\<close>. The model is sequential: an atomic load or
  store is a read or write of the field.
\<close>

record junk_context =
  rx_phase :: "8 word"
  tx_phase :: "8 word"
  tx :: bool
  snr :: "16 word"
  byte_data_counter :: "64 word"

definition ctx0 :: junk_context where
  \<comment> \<open>\<^verbatim>\<open>struct junk_context ctx = {0};\<close> in \<^verbatim>\<open>main\<close>\<close>
  "ctx0 = \<lparr>rx_phase = 0, tx_phase = 0, tx = False, snr = 0, byte_data_counter = 0\<rparr>"

text \<open>
  \<^verbatim>\<open>struct waveform_vita_packet\<close> is opaque to \<^verbatim>\<open>main.c\<close>; the handlers read
  only \<^verbatim>\<open>get_packet_len(packet)\<close>, the number of samples. The accessor is declared
  in \<^verbatim>\<open>waveform/waveform_api.h\<close>, which is not part of these sources, so the length
  is taken as a natural number and the loop counter \<^verbatim>\<open>int i\<close> as unbounded.
\<close>

record waveform_vita_packet =
  get_packet_len :: nat

text \<open>
  \<^verbatim>\<open>enum waveform_state\<close> comes from the same header. The \<^verbatim>\<open>switch\<close> of
  \<^verbatim>\<open>state_test\<close> names four enumerators and has a \<^verbatim>\<open>default\<close> branch;
  \<open>UNLISTED v\<close> stands for any other value \<open>v\<close> of the enum's integer type.
\<close>

datatype waveform_state =
  ACTIVE | INACTIVE | PTT_REQUESTED | UNKEY_REQUESTED | UNLISTED int

datatype waveform_stream = SPEAKER_DATA | TRANSMITTER_DATA

text \<open>
  What a handler does to the outside: the calls into the waveform library and the
  lines written to \<^verbatim>\<open>stderr\<close>, in program order. The meter value is
  \<^verbatim>\<open>(float) ctx->snr\<close>; every \<^verbatim>\<open>int16_t\<close> is a binary32 value, so it is kept
  as the integer.
\<close>

datatype effect =
    Send_data_packet "sample list" nat waveform_stream
  | Meter_set_float_value string int
  | Meters_send
  | Send_byte_data_packet string
  | Send_api_command_cb string
  | Stderr string

text \<open>
  Undefined behaviour of the C program is a fault of the model: a read of
  \<^verbatim>\<open>sin_table\<close> at an index from 24 on, a write to the sample buffer at an index
  from its length on.
\<close>

datatype fault =
    Table_index_out_of_range nat
  | Buffer_index_out_of_range nat

section \<open>The sample-filling loop\<close>

text \<open>
  \<^verbatim>\<open>for (int i = 0; i < get_packet_len(packet); i += 2) {
      buf[i] = buf[i + 1] = sin_table[phase] * 0.5F;
      phase = (phase + 1) % 24;
  }\<close>
  The loops of \<^verbatim>\<open>packet_rx\<close> (on \<^verbatim>\<open>ctx->rx_phase\<close>) and \<^verbatim>\<open>packet_tx\<close>
  (on \<^verbatim>\<open>ctx->tx_phase\<close>) are the same text. The phase is a \<^verbatim>\<open>uint8_t\<close>,
  promoted to \<^verbatim>\<open>int\<close> for \<^verbatim>\<open>+ 1\<close> and \<^verbatim>\<open>% 24\<close> and stored back.
\<close>

function fill_samples :: "nat \<Rightarrow> nat \<Rightarrow> sample list \<Rightarrow> 8 word \<Rightarrow> fault + (sample list \<times> 8 word)" where
  "fill_samples len i buf phase =
     (if i < len then
        (if 24 \<le> unat phase then Inl (Table_index_out_of_range (unat phase))
         else
           let v = fmul32 (sin_table ! unat phase) (binary32 0.5)
           in if length buf \<le> i + 1 then Inl (Buffer_index_out_of_range (i + 1))
              else fill_samples len (i + 2) (buf[i + 1 := v, i := v])
                     (word_of_nat ((unat phase + 1) mod 24)))
      else Inr (buf, phase))"
  by pat_completeness auto
termination
  by (relation "measure (\<lambda>(len, i, buf, phase). len - i)") auto

declare fill_samples.simps [simp del]

section \<open>The heartbeat text\<close>

text \<open>
  \<^verbatim>\<open>snprintf(.., "Callback Counter: %ld\n", ctx->byte_data_counter)\<close>: \<^verbatim>\<open>%ld\<close>
  prints its argument as a signed \<^verbatim>\<open>long\<close> (64 bits here) in decimal.
\<close>

definition digit_char :: "nat \<Rightarrow> char" where
  "digit_char d = char_of (48 + d)"

fun dec_nat :: "nat \<Rightarrow> string" where
  "dec_nat n = (if n < 10 then [digit_char n] else dec_nat (n div 10) @ [digit_char (n mod 10)])"

declare dec_nat.simps [simp del]

definition dec_int :: "int \<Rightarrow> string" where
  "dec_int k = (if k < 0 then CHR ''-'' # dec_nat (nat (- k)) else dec_nat (nat k))"

definition counter_text :: "64 word \<Rightarrow> string" where
  "counter_text c = ''Callback Counter: '' @ dec_int (sint c) @ [CHR 0x0A]"

definition data_message :: "64 word \<Rightarrow> string" where
  \<comment> \<open>\<^verbatim>\<open>uint8_t data_message[len + 1]\<close>: the text and the terminating NUL that
      \<^verbatim>\<open>snprintf\<close> writes; all \<^verbatim>\<open>sizeof(data_message)\<close> bytes are sent\<close>
  "data_message c = counter_text c @ [CHR 0x00]"

section \<open>The handlers\<close>

text \<open>
  Each handler takes the context that \<^verbatim>\<open>waveform_get_context\<close> returns and gives
  back the context it leaves and what it sent, or the fault of its loop.
  \<open>packet_rx\<close>, after the early return on \<^verbatim>\<open>ctx->tx\<close>: a buffer of
  \<^verbatim>\<open>get_packet_len(packet)\<close> floats set to zero by \<^verbatim>\<open>memset\<close>, the loop,
  \<^verbatim>\<open>waveform_send_data_packet(.., SPEAKER_DATA)\<close>, the meter set to
  \<^verbatim>\<open>(float) ctx->snr\<close> and sent, then
  \<^verbatim>\<open>ctx->snr = ++ctx->snr > 100 ? -100 : ctx->snr;\<close> (the increment is stored
  back into the \<^verbatim>\<open>int16_t\<close> before the comparison), then
  \<^verbatim>\<open>if (++ctx->byte_data_counter % 100 == 0)\<close> the heartbeat.
  \<open>packet_tx\<close>, after the early return on \<^verbatim>\<open>false == ctx->tx\<close>: the same buffer and
  loop on \<^verbatim>\<open>ctx->tx_phase\<close>, and \<^verbatim>\<open>waveform_send_data_packet(.., TRANSMITTER_DATA)\<close>.
  \<open>state_test\<close>: the \<^verbatim>\<open>switch\<close> on the state, case by case.
\<close>

definition packet_rx :: "waveform_vita_packet \<Rightarrow> junk_context \<Rightarrow> fault + (junk_context \<times> effect list)" where
  "packet_rx packet ctx =
     (if tx ctx then Inr (ctx, [])
      else
        let len = get_packet_len packet
        in case fill_samples len 0 (replicate len 0) (rx_phase ctx) of
             Inl f \<Rightarrow> Inl f
           | Inr (null_samples, phase) \<Rightarrow>
               let ctx1 = ctx\<lparr>rx_phase := phase\<rparr>;
                   sent = [Send_data_packet null_samples len SPEAKER_DATA,
                           Meter_set_float_value ''junk-snr'' (sint (snr ctx1)),
                           Meters_send];
                   snr1 = snr ctx1 + 1;
                   ctx2 = ctx1\<lparr>snr := (if 100 < sint snr1 then - 100 else snr1)\<rparr>;
                   counter = byte_data_counter ctx2 + 1;
                   ctx3 = ctx2\<lparr>byte_data_counter := counter\<rparr>
               in if unat counter mod 100 = 0
                  then Inr (ctx3, sent @ [Send_byte_data_packet (data_message counter)])
                  else Inr (ctx3, sent))"

definition packet_tx :: "waveform_vita_packet \<Rightarrow> junk_context \<Rightarrow> fault + (junk_context \<times> effect list)" where
  "packet_tx packet ctx =
     (if False = tx ctx then Inr (ctx, [])
      else
        let len = get_packet_len packet
        in case fill_samples len 0 (replicate len 0) (tx_phase ctx) of
             Inl f \<Rightarrow> Inl f
           | Inr (xmit_samples, phase) \<Rightarrow>
               Inr (ctx\<lparr>tx_phase := phase\<rparr>,
                    [Send_data_packet xmit_samples len TRANSMITTER_DATA]))"

fun state_test :: "waveform_state \<Rightarrow> junk_context \<Rightarrow> junk_context \<times> effect list" where
  "state_test ACTIVE ctx =
     (ctx, [Stderr (''wf is active'' @ [CHR 0x0A]), Send_api_command_cb ''filt 0 100 3000''])"
| "state_test INACTIVE ctx = (ctx, [Stderr (''wf is inactive'' @ [CHR 0x0A])])"
| "state_test PTT_REQUESTED ctx = (ctx\<lparr>tx := True\<rparr>, [Stderr (''ptt requested'' @ [CHR 0x0A])])"
| "state_test UNKEY_REQUESTED ctx = (ctx\<lparr>tx := False\<rparr>, [Stderr (''unkey requested'' @ [CHR 0x0A])])"
| "state_test (UNLISTED v) ctx = (ctx, [Stderr ''unknown state received''])"

section \<open>Reference sequences\<close>

text \<open>
  These functions are not part of the program; the results below are stated with them.
  \<open>stereo p n\<close> is \<open>n\<close> stereo pairs of the half-scale tone, read from the table
  cyclically from index \<open>p\<close>: left and right sample of a pair are the same value.
\<close>

definition half_scale :: "nat \<Rightarrow> sample" where
  "half_scale k = sin_table ! (k mod 24) / 2"

fun stereo :: "nat \<Rightarrow> nat \<Rightarrow> sample list" where
  "stereo p 0 = []"
| "stereo p (Suc n) = half_scale p # half_scale p # stereo (Suc p) n"

text \<open>
  \<open>rx_run\<close> delivers a sequence of receive packets to \<open>packet_rx\<close>, one call after
  the other on the same context, as the library does for the registered callback; it
  collects what the calls send, and stops at the first fault.
\<close>

fun rx_run :: "waveform_vita_packet list \<Rightarrow> junk_context \<Rightarrow> fault + (junk_context \<times> effect list)" where
  "rx_run [] ctx = Inr (ctx, [])"
| "rx_run (packet # packets) ctx =
     (case packet_rx packet ctx of
        Inl f \<Rightarrow> Inl f
      | Inr (ctx1, sent1) \<Rightarrow>
          (case rx_run packets ctx1 of
             Inl f \<Rightarrow> Inl f
           | Inr (ctx2, sent2) \<Rightarrow> Inr (ctx2, sent1 @ sent2)))"

text \<open>Projections of what was sent: speaker samples, meter values, heartbeat messages.\<close>

fun speaker_samples :: "effect list \<Rightarrow> sample list" where
  "speaker_samples [] = []"
| "speaker_samples (Send_data_packet buf n SPEAKER_DATA # es) = take n buf @ speaker_samples es"
| "speaker_samples (e # es) = speaker_samples es"

fun meter_values :: "effect list \<Rightarrow> int list" where
  "meter_values [] = []"
| "meter_values (Meter_set_float_value name v # es) = v # meter_values es"
| "meter_values (e # es) = meter_values es"

fun heartbeats :: "effect list \<Rightarrow> string list" where
  "heartbeats [] = []"
| "heartbeats (Send_byte_data_packet msg # es) = msg # heartbeats es"
| "heartbeats (e # es) = heartbeats es"

definition pairs :: "waveform_vita_packet list \<Rightarrow> nat" where
  \<comment> \<open>the number of stereo pairs in a sequence of packets\<close>
  "pairs packets = (\<Sum>p \<leftarrow> packets. get_packet_len p div 2)"

text \<open>
  The sawtooth of the specification: \<open>0, 1, \<dots>, 100, -100, -99, \<dots>, 100, -100, \<dots>\<close>,
  the value of the signal metric after \<open>k\<close> processed receive packets.
\<close>

definition sawtooth :: "nat \<Rightarrow> int" where
  "sawtooth k = (if k \<le> 100 then int k else int ((k - 101) mod 201) - 100)"

definition phase_ok :: "junk_context \<Rightarrow> bool" where
  \<comment> \<open>both phases are indices of the table\<close>
  "phase_ok ctx \<longleftrightarrow> unat (rx_phase ctx) < 24 \<and> unat (tx_phase ctx) < 24"

text \<open>The number that a string of decimal digits denotes, to state what \<open>dec_nat\<close> prints.\<close>

definition dec_value :: "string \<Rightarrow> nat" where
  "dec_value s = foldl (\<lambda>v ch. 10 * v + (of_char ch - 48)) 0 s"

section \<open>Rounding to binary32, evaluated\<close>

lemma binade_from_eq:
  "e0 \<le> e \<Longrightarrow> - 126 \<le> e0 \<Longrightarrow> e0 = - 126 \<or> 2 powi e0 \<le> \<bar>x\<bar> \<Longrightarrow> \<bar>x\<bar> < 2 powi (e0 + 1)
   \<Longrightarrow> binade_from e x = e0"
proof (induction e x rule: binade_from.induct)
  case (1 e x)
  show ?case
  proof (cases "e = e0")
    case True
    with "1.prems" show ?thesis by (subst binade_from.simps) auto
  next
    case False
    with "1.prems" have lt: "e0 + 1 \<le> e" by simp
    have "(2::rat) powi (e0 + 1) \<le> 2 powi e"
      by (rule power_int_increasing [OF lt]) simp
    with "1.prems" have nle: "\<not> 2 powi e \<le> \<bar>x\<bar>" by simp
    from lt "1.prems" have "\<not> e \<le> - 126" by simp
    with nle have "binade_from e x = binade_from (e - 1) x"
      by (subst binade_from.simps) simp
    also have "\<dots> = e0"
      using "1.IH" nle \<open>\<not> e \<le> - 126\<close> lt "1.prems" by simp
    finally show ?thesis .
  qed
qed

lemma binade_eq:
  "- 126 \<le> e \<Longrightarrow> e \<le> 127 \<Longrightarrow> e = - 126 \<or> 2 powi e \<le> \<bar>x\<bar> \<Longrightarrow> \<bar>x\<bar> < 2 powi (e + 1) \<Longrightarrow> binade x = e"
  unfolding binade_def by (rule binade_from_eq)

lemma binary32_eq:
  "- 126 \<le> e \<Longrightarrow> e \<le> 127 \<Longrightarrow> e = - 126 \<or> 2 powi e \<le> \<bar>x\<bar> \<Longrightarrow> \<bar>x\<bar> < 2 powi (e + 1)
   \<Longrightarrow> binary32 x = of_int (round_half_even (x / 2 powi (e - 23))) * 2 powi (e - 23)"
  by (simp add: binary32_def binade_eq Let_def)

lemma round_half_even_ratio:
  assumes "0 < b"
  shows "round_half_even (of_int a / of_int b) =
           (if 2 * (a mod b) < b then a div b
            else if b < 2 * (a mod b) then a div b + 1
            else if even (a div b) then a div b else a div b + 1)"
proof -
  let ?x = "rat_of_int a / rat_of_int b"
  have fl: "\<lfloor>?x\<rfloor> = a div b" by (rule floor_divide_of_int_eq)
  have "rat_of_int a = of_int (a div b) * of_int b + of_int (a mod b)"
    by (metis div_mult_mod_eq of_int_add of_int_mult)
  with assms have d: "?x - of_int (a div b) = of_int (a mod b) / of_int b"
    by (simp add: field_simps)
  from assms have lt: "of_int (a mod b) / rat_of_int b < 1 / 2 \<longleftrightarrow> 2 * (a mod b) < b"
    by (simp add: field_simps) (metis of_int_less_iff of_int_mult of_int_numeral mult.commute)
  from assms have gt: "1 / 2 < of_int (a mod b) / rat_of_int b \<longleftrightarrow> b < 2 * (a mod b)"
    by (simp add: field_simps) (metis of_int_less_iff of_int_mult of_int_numeral mult.commute)
  show ?thesis
    unfolding round_half_even_def Let_def fl d lt gt by simp
qed

lemma round_half_even_numeral:
  "round_half_even (numeral a / numeral b) =
     (if 2 * (numeral a mod numeral b) < (numeral b :: int) then numeral a div numeral b
      else if numeral b < 2 * (numeral a mod numeral b :: int) then numeral a div numeral b + 1
      else if even (numeral a div numeral b :: int) then numeral a div numeral b
      else numeral a div numeral b + 1)"
  using round_half_even_ratio [of "numeral b" "numeral a"] by simp

lemma round_half_even_neg_numeral:
  "round_half_even (- (numeral a / numeral b)) =
     (if 2 * (- numeral a mod numeral b) < (numeral b :: int) then - numeral a div numeral b
      else if numeral b < 2 * (- numeral a mod numeral b :: int) then - numeral a div numeral b + 1
      else if even (- numeral a div numeral b :: int) then - numeral a div numeral b
      else - numeral a div numeral b + 1)"
  using round_half_even_ratio [of "numeral b" "- numeral a"] by simp

lemma round_half_even_of_int: "round_half_even (of_int k) = k"
  by (simp add: round_half_even_def)

lemmas binary32_at =
  binary32_eq [where e = "- 126"] binary32_eq [where e = "- 54"] binary32_eq [where e = "- 53"]
  binary32_eq [where e = "- 3"] binary32_eq [where e = "- 2"] binary32_eq [where e = "- 1"]
  binary32_eq [where e = 0]

lemma round_half_even_int_numeral:
  "round_half_even 0 = 0" "round_half_even 1 = 1" "round_half_even (- 1) = - 1"
  "round_half_even (numeral k) = numeral k" "round_half_even (- numeral k) = - numeral k"
  using round_half_even_of_int [of 0] round_half_even_of_int [of 1] round_half_even_of_int [of "- 1"]
    round_half_even_of_int [of "numeral k"] round_half_even_of_int [of "- numeral k"]
  by simp_all

lemmas round_half_even_eval =
  round_half_even_numeral round_half_even_neg_numeral round_half_even_int_numeral

text \<open>
  The table as binary32 values. Entries 5 and 7, printed with different last digits in
  the source, are the same binary32 number, and so on for the other symmetric pairs.
\<close>

lemma sin_table_values:
  "sin_table =
     [0,
      4342263 / 2 ^ 24,
      1 / 2 ^ 1,
      11863283 / 2 ^ 24,
      14529495 / 2 ^ 24,
      8102773 / 2 ^ 23,
      1,
      8102773 / 2 ^ 23,
      14529495 / 2 ^ 24,
      11863283 / 2 ^ 24,
      1 / 2 ^ 1,
      4342263 / 2 ^ 24,
      4626585 / 2 ^ 75,
      - 4342263 / 2 ^ 24,
      - 1 / 2 ^ 1,
      - 11863283 / 2 ^ 24,
      - 14529495 / 2 ^ 24,
      - 8102773 / 2 ^ 23,
      - 1,
      - 8102773 / 2 ^ 23,
      - 14529495 / 2 ^ 24,
      - 11863283 / 2 ^ 24,
      - 1 / 2 ^ 1,
      - 4342263 / 2 ^ 24]"
  unfolding sin_table_def by (simp add: binary32_at round_half_even_eval)

lemma half_exact: "binary32 0.5 = 1 / 2"
  by (simp add: binary32_at round_half_even_eval)

lemma length_sin_table: "length sin_table = 24"
  by (simp add: sin_table_def)

text \<open>The binary32 product of a table entry with \<open>0.5F\<close> is exact.\<close>

lemma scaled_table:
  "map (\<lambda>x. fmul32 x (binary32 0.5)) sin_table = map (\<lambda>x. x / 2) sin_table"
  unfolding sin_table_values half_exact fmul32_def by (simp add: binary32_at round_half_even_eval)

lemma scaled_entry:
  assumes "k < 24"
  shows "fmul32 (sin_table ! k) (binary32 0.5) = sin_table ! k / 2"
proof -
  from assms have k: "k < length sin_table" by (simp add: length_sin_table)
  have "fmul32 (sin_table ! k) (binary32 0.5) = map (\<lambda>x. fmul32 x (binary32 0.5)) sin_table ! k"
    using k by simp
  also have "\<dots> = map (\<lambda>x. x / 2) sin_table ! k" by (simp only: scaled_table)
  also have "\<dots> = sin_table ! k / 2" using k by simp
  finally show ?thesis .
qed

lemma half_scale_0: "half_scale 0 = 0"
  by (simp add: half_scale_def sin_table_values)

section \<open>The reference tone\<close>

lemma half_scale_mod: "half_scale (k mod 24) = half_scale k"
  by (simp add: half_scale_def)

lemma stereo_mod: "stereo (p mod 24) n = stereo p n"
proof (induction n arbitrary: p)
  case 0
  show ?case by simp
next
  case (Suc n)
  have "stereo (Suc (p mod 24)) n = stereo (Suc (p mod 24) mod 24) n"
    by (simp only: Suc.IH)
  also have "\<dots> = stereo (Suc p mod 24) n" by (simp add: mod_Suc_eq)
  also have "\<dots> = stereo (Suc p) n" by (simp only: Suc.IH)
  finally show ?case by (simp add: half_scale_mod)
qed

lemma length_stereo: "length (stereo p n) = 2 * n"
  by (induction n arbitrary: p) simp_all

lemma stereo_append: "stereo p (n + m) = stereo p n @ stereo (p + n) m"
  by (induction n arbitrary: p) simp_all

lemma nth_stereo: "k < 2 * n \<Longrightarrow> stereo p n ! k = half_scale (p + k div 2)"
proof (induction n arbitrary: p k)
  case 0
  then show ?case by simp
next
  case (Suc n)
  show ?case
  proof (cases "k < 2")
    case True
    then have "k = 0 \<or> k = 1" by auto
    then show ?thesis by auto
  next
    case False
    then obtain j where k: "k = Suc (Suc j)" by (metis Suc_lessI less_2_cases_iff not0_implies_Suc not_less_eq numeral_2_eq_2 zero_less_Suc)
    with Suc.prems have "j < 2 * n" by simp
    with Suc.IH have "stereo (Suc p) n ! j = half_scale (Suc p + j div 2)" by blast
    with k show ?thesis by simp
  qed
qed

lemma stereo_pair:
  assumes "j < n"
  shows "stereo p n ! (2 * j) = sin_table ! ((p + j) mod 24) / 2"
    and "stereo p n ! (2 * j + 1) = sin_table ! ((p + j) mod 24) / 2"
proof -
  from assms have "2 * j < 2 * n" "2 * j + 1 < 2 * n" by simp_all
  then have "stereo p n ! (2 * j) = half_scale (p + (2 * j) div 2)"
    and "stereo p n ! (2 * j + 1) = half_scale (p + (2 * j + 1) div 2)"
    by (simp_all only: nth_stereo)
  then show "stereo p n ! (2 * j) = sin_table ! ((p + j) mod 24) / 2"
    and "stereo p n ! (2 * j + 1) = sin_table ! ((p + j) mod 24) / 2"
    by (simp_all add: half_scale_def)
qed

lemma rotate_table:
  assumes "j < 24"
  shows "rotate (w mod 24) (map (\<lambda>x. x / 2) sin_table) ! j = sin_table ! ((w + j) mod 24) / 2"
proof -
  have len: "length (map (\<lambda>x. x / 2) sin_table) = 24" by (simp add: length_sin_table)
  have "rotate (w mod 24) (map (\<lambda>x. x / 2) sin_table) ! j =
        map (\<lambda>x. x / 2) sin_table ! ((w mod 24 + j) mod length (map (\<lambda>x. x / 2) sin_table))"
    using assms len by (intro nth_rotate) simp
  also have "\<dots> = map (\<lambda>x. x / 2) sin_table ! ((w + j) mod 24)"
    unfolding len by (simp add: mod_simps)
  also have "\<dots> = sin_table ! ((w + j) mod 24) / 2"
    by (simp add: length_sin_table)
  finally show ?thesis .
qed

lemma stereo_window:
  assumes "w + 24 \<le> n"
  shows "map (\<lambda>j. stereo 0 n ! (2 * (w + j))) [0 ..< 24] = rotate (w mod 24) (map (\<lambda>x. x / 2) sin_table)"
    and "map (\<lambda>j. stereo 0 n ! (2 * (w + j) + 1)) [0 ..< 24] = rotate (w mod 24) (map (\<lambda>x. x / 2) sin_table)"
proof -
  have left: "stereo 0 n ! (2 * (w + j)) = sin_table ! ((w + j) mod 24) / 2"
    and right: "stereo 0 n ! (2 * (w + j) + 1) = sin_table ! ((w + j) mod 24) / 2" if "j < 24" for j
    using that assms stereo_pair [of "w + j" n 0] by simp_all
  show "map (\<lambda>j. stereo 0 n ! (2 * (w + j))) [0 ..< 24] = rotate (w mod 24) (map (\<lambda>x. x / 2) sin_table)"
  proof (rule nth_equalityI)
    show "length (map (\<lambda>j. stereo 0 n ! (2 * (w + j))) [0 ..< 24]) =
          length (rotate (w mod 24) (map (\<lambda>x. x / 2) sin_table))"
      by (simp add: length_sin_table)
  next
    fix i
    assume "i < length (map (\<lambda>j. stereo 0 n ! (2 * (w + j))) [0 ..< 24])"
    then have i: "i < 24" by simp
    then have "map (\<lambda>j. stereo 0 n ! (2 * (w + j))) [0 ..< 24] ! i = stereo 0 n ! (2 * (w + i))"
      by simp
    also have "\<dots> = sin_table ! ((w + i) mod 24) / 2" by (rule left [OF i])
    also have "\<dots> = rotate (w mod 24) (map (\<lambda>x. x / 2) sin_table) ! i"
      by (rule rotate_table [OF i, symmetric])
    finally show "map (\<lambda>j. stereo 0 n ! (2 * (w + j))) [0 ..< 24] ! i =
                  rotate (w mod 24) (map (\<lambda>x. x / 2) sin_table) ! i" .
  qed
  show "map (\<lambda>j. stereo 0 n ! (2 * (w + j) + 1)) [0 ..< 24] = rotate (w mod 24) (map (\<lambda>x. x / 2) sin_table)"
  proof (rule nth_equalityI)
    show "length (map (\<lambda>j. stereo 0 n ! (2 * (w + j) + 1)) [0 ..< 24]) =
          length (rotate (w mod 24) (map (\<lambda>x. x / 2) sin_table))"
      by (simp add: length_sin_table)
  next
    fix i
    assume "i < length (map (\<lambda>j. stereo 0 n ! (2 * (w + j) + 1)) [0 ..< 24])"
    then have i: "i < 24" by simp
    then have "map (\<lambda>j. stereo 0 n ! (2 * (w + j) + 1)) [0 ..< 24] ! i = stereo 0 n ! (2 * (w + i) + 1)"
      by simp
    also have "\<dots> = sin_table ! ((w + i) mod 24) / 2" by (rule right [OF i])
    also have "\<dots> = rotate (w mod 24) (map (\<lambda>x. x / 2) sin_table) ! i"
      by (rule rotate_table [OF i, symmetric])
    finally show "map (\<lambda>j. stereo 0 n ! (2 * (w + j) + 1)) [0 ..< 24] ! i =
                  rotate (w mod 24) (map (\<lambda>x. x / 2) sin_table) ! i" .
  qed
qed

lemma stereo_concat: "stereo p n = concat (map (\<lambda>j. [half_scale j, half_scale j]) [p ..< p + n])"
proof (induction n arbitrary: p)
  case 0
  show ?case by simp
next
  case (Suc n)
  have "[p ..< p + Suc n] = p # [Suc p ..< Suc p + n]" by (subst upt_rec) simp
  then show ?case by (simp add: Suc.IH)
qed

lemma one_cycle: "stereo 0 24 = concat (map (\<lambda>x. [x / 2, x / 2]) sin_table)"
proof -
  have "map (\<lambda>x. [x / 2, x / 2]) sin_table =
        map (\<lambda>x. [x / 2, x / 2]) (map ((!) sin_table) [0 ..< length sin_table])"
    by (simp only: map_nth)
  also have "\<dots> = map (\<lambda>j. [sin_table ! j / 2, sin_table ! j / 2]) [0 ..< 24]"
    by (simp add: length_sin_table comp_def)
  also have "\<dots> = map (\<lambda>j. [half_scale j, half_scale j]) [0 ..< 24]"
    by (rule map_cong) (simp_all add: half_scale_def)
  finally have "map (\<lambda>x. [x / 2, x / 2]) sin_table = map (\<lambda>j. [half_scale j, half_scale j]) [0 ..< 0 + 24]"
    by simp
  then show ?thesis by (simp only: stereo_concat)
qed

section \<open>The sample-filling loop\<close>

lemma unat_phase_step: "unat (word_of_nat ((unat (phase :: 8 word) + 1) mod 24) :: 8 word) = (unat phase + 1) mod 24"
proof -
  have "(unat phase + 1) mod 24 < 24" by simp
  then have "(unat phase + 1) mod 24 < 2 ^ LENGTH(8)" by simp
  then show ?thesis by (rule of_nat_inverse [OF refl])
qed

lemma unat_phase_mod: "unat (word_of_nat (n mod 24) :: 8 word) = n mod 24"
proof -
  have "n mod 24 < 24" by simp
  then have "n mod 24 < 2 ^ LENGTH(8)" by simp
  then show ?thesis by (rule of_nat_inverse [OF refl])
qed

lemma fill_samples_step:
  assumes "i < len" and "unat phase < 24" and "i + 1 < length buf"
  shows "fill_samples len i buf phase =
     fill_samples len (i + 2)
       (buf[i + 1 := sin_table ! unat phase / 2, i := sin_table ! unat phase / 2])
       (word_of_nat ((unat phase + 1) mod 24))"
proof -
  have "fill_samples len i buf phase =
     fill_samples len (i + 2)
       (buf[i + 1 := fmul32 (sin_table ! unat phase) (binary32 0.5),
            i := fmul32 (sin_table ! unat phase) (binary32 0.5)])
       (word_of_nat ((unat phase + 1) mod 24))"
    using assms by (subst fill_samples.simps) (simp add: Let_def)
  then show ?thesis by (simp only: scaled_entry [OF assms(2)])
qed

lemma fill_samples_even:
  "even (len - i) \<Longrightarrow> i \<le> len \<Longrightarrow> length buf = len \<Longrightarrow> unat phase < 24 \<Longrightarrow>
   fill_samples len i buf phase =
     Inr (take i buf @ stereo (unat phase) ((len - i) div 2),
          word_of_nat ((unat phase + (len - i) div 2) mod 24))"
proof (induction len i buf phase rule: fill_samples.induct)
  case (1 len i buf phase)
  show ?case
  proof (cases "i < len")
    case False
    with "1.prems" have "i = len" by simp
    with "1.prems" show ?thesis by (subst fill_samples.simps) simp
  next
    case True
    have "len - i \<noteq> 1"
    proof
      assume h: "len - i = 1"
      have "odd (len - i)" unfolding h by simp
      with "1.prems"(1) show False by blast
    qed
    with True have i2: "i + 2 \<le> len" by arith
    define v where "v = fmul32 (sin_table ! unat phase) (binary32 0.5)"
    define buf2 where "buf2 = buf[i + 1 := v, i := v]"
    define ph2 :: "8 word" where "ph2 = word_of_nat ((unat phase + 1) mod 24)"
    have v: "v = half_scale (unat phase)"
      using "1.prems" scaled_entry [of "unat phase"] by (simp only: v_def half_scale_def mod_less)
    have ph2: "unat ph2 = (unat phase + 1) mod 24"
      unfolding ph2_def by (rule unat_phase_step)
    have step: "fill_samples len i buf phase = fill_samples len (i + 2) buf2 ph2"
      using True i2 "1.prems"
      by (subst fill_samples.simps) (simp add: v_def buf2_def ph2_def Let_def)
    have IH: "fill_samples len (i + 2) buf2 ph2 =
        Inr (take (i + 2) buf2 @ stereo (unat ph2) ((len - (i + 2)) div 2),
          word_of_nat ((unat ph2 + (len - (i + 2)) div 2) mod 24))"
      unfolding buf2_def ph2_def
    proof (rule "1.IH" [OF True _ v_def])
      show "\<not> 24 \<le> unat phase" using "1.prems" by simp
      show "\<not> length buf \<le> i + 1" using i2 "1.prems" by simp
      show "even (len - (i + 2))" using "1.prems" by simp
      show "i + 2 \<le> len" by (rule i2)
      show "length (buf[i + 1 := v, i := v]) = len" using "1.prems" by simp
      show "unat (word_of_nat ((unat phase + 1) mod 24) :: 8 word) < 24"
        using unat_phase_step [of phase] by simp
    qed
    have tk: "take (i + 2) buf2 = take i buf @ [v, v]"
    proof -
      have "length buf2 = len" using "1.prems" by (simp add: buf2_def)
      with i2 have "take (i + 2) buf2 = take i buf2 @ [buf2 ! i, buf2 ! (i + 1)]"
        by (simp add: take_Suc_conv_app_nth numeral_2_eq_2)
      moreover have "take i buf2 = take i buf" by (simp add: buf2_def)
      moreover have "buf2 ! i = v" "buf2 ! (i + 1) = v"
        using i2 "1.prems" by (simp_all add: buf2_def)
      ultimately show ?thesis by simp
    qed
    from "1.prems"(1) obtain b where b: "len - i = 2 * b" by (rule evenE)
    with i2 have "b \<noteq> 0" by auto
    then obtain m where "b = Suc m" by (cases b) auto
    with b have m: "len - i = 2 * Suc m" by simp
    then have m2: "len - (i + 2) = 2 * m" by simp
    have st: "stereo (unat phase) (Suc m) = [v, v] @ stereo (unat ph2) m"
      by (simp add: v ph2 stereo_mod)
    have d1: "(len - i) div 2 = Suc m" and d2: "(len - (i + 2)) div 2 = m"
      unfolding m m2 by simp_all
    have pm: "(unat ph2 + m) mod 24 = (unat phase + Suc m) mod 24"
      by (simp add: ph2 mod_simps)
    show ?thesis
      unfolding step IH d1 d2 tk st pm by simp
  qed
qed

lemma fill_samples_odd:
  "odd (len - i) \<Longrightarrow> i \<le> len \<Longrightarrow> length buf = len \<Longrightarrow> unat phase < 24 \<Longrightarrow>
   fill_samples len i buf phase = Inl (Buffer_index_out_of_range len)"
proof (induction len i buf phase rule: fill_samples.induct)
  case (1 len i buf phase)
  from "1.prems" have lt: "i < len" by (cases "i = len") auto
  show ?case
  proof (cases "i + 1 = len")
    case True
    with lt "1.prems" show ?thesis by (subst fill_samples.simps) (simp add: Let_def)
  next
    case False
    with lt have i2: "i + 2 \<le> len" by arith
    define v where "v = fmul32 (sin_table ! unat phase) (binary32 0.5)"
    have "fill_samples len i buf phase =
            fill_samples len (i + 2) (buf[i + 1 := v, i := v]) (word_of_nat ((unat phase + 1) mod 24))"
      using lt i2 "1.prems" by (subst fill_samples.simps) (simp add: v_def Let_def)
    also have "\<dots> = Inl (Buffer_index_out_of_range len)"
    proof (rule "1.IH" [OF lt _ v_def])
      show "\<not> 24 \<le> unat phase" using "1.prems" by simp
      show "\<not> length buf \<le> i + 1" using i2 "1.prems" by simp
      show "odd (len - (i + 2))" using "1.prems"(1) i2 by simp
      show "i + 2 \<le> len" by (rule i2)
      show "length (buf[i + 1 := v, i := v]) = len" using "1.prems" by simp
      show "unat (word_of_nat ((unat phase + 1) mod 24) :: 8 word) < 24"
        using unat_phase_step [of phase] by simp
    qed
    finally show ?thesis .
  qed
qed

section \<open>The signal metric and the packet counter\<close>

lemma sint_snr_succ:
  fixes s :: "16 word"
  assumes "sint s < 32767"
  shows "sint (s + 1) = sint s + 1"
proof -
  have "- (2 ^ (LENGTH(16) - 1)) \<le> sint s" by (rule sint_ge)
  then have lo: "- 32768 \<le> sint s" by simp
  have "sint (s + 1) = signed_take_bit (LENGTH(16) - 1) (sint s + sint (1 :: 16 word))"
    by (rule sint_word_ariths)
  also have "\<dots> = signed_take_bit 15 (sint s + 1)" by simp
  also have "\<dots> = sint s + 1"
    using lo assms by (intro signed_take_bit_int_eq_self) simp_all
  finally show ?thesis .
qed

lemma sawtooth_0: "sawtooth 0 = 0"
  by (simp add: sawtooth_def)

lemma sawtooth_range: "- 100 \<le> sawtooth k \<and> sawtooth k \<le> 100"
proof (cases "k \<le> 100")
  case True
  then show ?thesis by (simp add: sawtooth_def)
next
  case False
  have "(k - 101) mod 201 < 201" by simp
  with False show ?thesis by (simp add: sawtooth_def)
qed

lemma sawtooth_Suc:
  "sawtooth (Suc k) = (if 100 < sawtooth k + 1 then - 100 else sawtooth k + 1)"
proof -
  consider "k < 100" | "k = 100" | "100 < k" by arith
  then show ?thesis
  proof cases
    case 1
    then show ?thesis by (simp add: sawtooth_def)
  next
    case 2
    then show ?thesis by (simp add: sawtooth_def)
  next
    case 3
    then have eq: "Suc k - 101 = Suc (k - 101)" by simp
    have lt: "(k - 101) mod 201 < 201" by simp
    from 3 show ?thesis
      unfolding sawtooth_def eq using lt by (auto simp: mod_Suc)
  qed
qed

lemma snr_step:
  fixes s :: "16 word"
  assumes "sint s = sawtooth k"
  shows "sint (if 100 < sint (s + 1) then - 100 else s + 1) = sawtooth (Suc k)"
proof -
  from assms sawtooth_range [of k] have "sint s < 32767" by simp
  then have "sint (s + 1) = sawtooth k + 1" by (simp add: sint_snr_succ assms)
  moreover have "sint (- 100 :: 16 word) = - 100" by simp
  ultimately show ?thesis by (simp add: sawtooth_Suc)
qed

lemma unat_counter_succ:
  fixes c :: "64 word"
  assumes "c \<noteq> - 1"
  shows "unat (c + 1) = unat c + 1"
proof -
  from assms have "c + 1 \<noteq> 0" by (simp add: add_eq_0_iff2)
  then have "1 + c \<noteq> 0" by (simp add: add.commute)
  then have "unat (1 + c) = Suc (unat c)" by (rule unatSuc)
  then show ?thesis by (simp add: add.commute)
qed

section \<open>The heartbeat text, evaluated\<close>

lemma dec_nat_100: "dec_nat 100 = ''100''"
  by code_simp

lemma dec_nat_0: "dec_nat 0 = ''0''"
  by code_simp

lemma data_message_0: "data_message 0 = ''Callback Counter: 0'' @ [CHR 0x0A, CHR 0x00]"
  by (simp add: data_message_def counter_text_def dec_int_def dec_nat_0)

lemma data_message_100: "data_message 100 = ''Callback Counter: 100'' @ [CHR 0x0A, CHR 0x00]"
  by (simp add: data_message_def counter_text_def dec_int_def dec_nat_100)

lemma nat_sint_nonneg:
  fixes c :: "64 word"
  assumes "0 \<le> sint c"
  shows "nat (sint c) = unat c"
proof -
  have su: "sint c = signed_take_bit 63 (uint c)"
    using sint_uint [of c] by simp
  have ub: "uint c < 2 ^ 64" using uint_bounded [of c] by simp
  have hi: "uint c < 2 ^ 63"
  proof (rule ccontr)
    assume "\<not> uint c < 2 ^ 63"
    then have "2 ^ 63 \<le> uint c" by simp
    then have "signed_take_bit 63 (uint c) \<le> uint c - 2 ^ Suc 63"
      by (rule signed_take_bit_int_less_eq)
    then have "sint c \<le> uint c - 2 ^ Suc 63" by (simp only: su)
    moreover have "(2::int) ^ Suc 63 = 2 ^ 64" by simp
    ultimately have "sint c \<le> uint c - 2 ^ 64" by (simp only:)
    with ub assms show False by linarith
  qed
  have lo: "- (2 ^ 63) \<le> uint c" by (rule order_trans [of _ 0]) simp_all
  have "signed_take_bit 63 (uint c) = uint c"
    by (rule signed_take_bit_int_eq_self [OF lo hi])
  with su have "sint c = uint c" by (simp only:)
  then show ?thesis by (simp only: unat_eq_nat_uint)
qed

lemma dec_int_sint:
  fixes c :: "64 word"
  assumes "0 \<le> sint c"
  shows "dec_int (sint c) = dec_nat (unat c)"
  using assms by (simp add: dec_int_def nat_sint_nonneg)

lemma of_char_digit: "d < 10 \<Longrightarrow> of_char (digit_char d) = 48 + d"
  by (simp add: digit_char_def)

lemma dec_value_dec_nat: "dec_value (dec_nat n) = n"
proof (induction n rule: dec_nat.induct)
  case (1 n)
  show ?case
  proof (cases "n < 10")
    case True
    then show ?thesis
      by (subst dec_nat.simps) (simp add: dec_value_def of_char_digit)
  next
    case False
    have "n mod 10 < 10" by simp
    then have d: "of_char (digit_char (n mod 10)) = 48 + n mod 10" by (rule of_char_digit)
    from False have "dec_value (dec_nat n) = 10 * dec_value (dec_nat (n div 10)) + n mod 10"
      by (subst dec_nat.simps) (simp add: dec_value_def d)
    also have "\<dots> = 10 * (n div 10) + n mod 10" using "1.IH" False by simp
    also have "\<dots> = n" by simp
    finally show ?thesis .
  qed
qed

section \<open>One call of a packet handler\<close>

lemma packet_rx_even:
  assumes "\<not> tx ctx" and "unat (rx_phase ctx) < 24" and "even (get_packet_len packet)"
  shows "packet_rx packet ctx =
    Inr (ctx\<lparr>rx_phase := word_of_nat ((unat (rx_phase ctx) + get_packet_len packet div 2) mod 24),
             snr := (if 100 < sint (snr ctx + 1) then - 100 else snr ctx + 1),
             byte_data_counter := byte_data_counter ctx + 1\<rparr>,
         [Send_data_packet (stereo (unat (rx_phase ctx)) (get_packet_len packet div 2))
            (get_packet_len packet) SPEAKER_DATA,
          Meter_set_float_value ''junk-snr'' (sint (snr ctx)),
          Meters_send]
         @ (if unat (byte_data_counter ctx + 1) mod 100 = 0
            then [Send_byte_data_packet (data_message (byte_data_counter ctx + 1))] else []))"
proof -
  have "fill_samples (get_packet_len packet) 0 (replicate (get_packet_len packet) 0) (rx_phase ctx) =
        Inr (stereo (unat (rx_phase ctx)) (get_packet_len packet div 2),
             word_of_nat ((unat (rx_phase ctx) + get_packet_len packet div 2) mod 24))"
    using fill_samples_even [of "get_packet_len packet" 0 "replicate (get_packet_len packet) 0" "rx_phase ctx"]
      assms by simp
  with assms show ?thesis by (simp add: packet_rx_def Let_def)
qed

lemma packet_tx_even:
  assumes "tx ctx" and "unat (tx_phase ctx) < 24" and "even (get_packet_len packet)"
  shows "packet_tx packet ctx =
    Inr (ctx\<lparr>tx_phase := word_of_nat ((unat (tx_phase ctx) + get_packet_len packet div 2) mod 24)\<rparr>,
         [Send_data_packet (stereo (unat (tx_phase ctx)) (get_packet_len packet div 2))
            (get_packet_len packet) TRANSMITTER_DATA])"
proof -
  have "fill_samples (get_packet_len packet) 0 (replicate (get_packet_len packet) 0) (tx_phase ctx) =
        Inr (stereo (unat (tx_phase ctx)) (get_packet_len packet div 2),
             word_of_nat ((unat (tx_phase ctx) + get_packet_len packet div 2) mod 24))"
    using fill_samples_even [of "get_packet_len packet" 0 "replicate (get_packet_len packet) 0" "tx_phase ctx"]
      assms by simp
  with assms show ?thesis by (simp add: packet_tx_def Let_def)
qed

lemma packet_rx_odd:
  assumes "\<not> tx ctx" and "unat (rx_phase ctx) < 24" and "odd (get_packet_len packet)"
  shows "packet_rx packet ctx = Inl (Buffer_index_out_of_range (get_packet_len packet))"
proof -
  have "fill_samples (get_packet_len packet) 0 (replicate (get_packet_len packet) 0) (rx_phase ctx) =
        Inl (Buffer_index_out_of_range (get_packet_len packet))"
    using fill_samples_odd [of "get_packet_len packet" 0 "replicate (get_packet_len packet) 0" "rx_phase ctx"]
      assms by simp
  with assms show ?thesis by (simp add: packet_rx_def Let_def)
qed

lemma packet_tx_odd:
  assumes "tx ctx" and "unat (tx_phase ctx) < 24" and "odd (get_packet_len packet)"
  shows "packet_tx packet ctx = Inl (Buffer_index_out_of_range (get_packet_len packet))"
proof -
  have "fill_samples (get_packet_len packet) 0 (replicate (get_packet_len packet) 0) (tx_phase ctx) =
        Inl (Buffer_index_out_of_range (get_packet_len packet))"
    using fill_samples_odd [of "get_packet_len packet" 0 "replicate (get_packet_len packet) 0" "tx_phase ctx"]
      assms by simp
  with assms show ?thesis by (simp add: packet_tx_def Let_def)
qed

lemma packet_rx_snr:
  assumes "\<not> tx ctx" and "unat (rx_phase ctx) < 24" and "even (get_packet_len packet)"
    and "- 100 \<le> sint (snr ctx)" and "sint (snr ctx) \<le> 100"
  shows "\<exists>ctx' sent. packet_rx packet ctx = Inr (ctx', sent)
           \<and> sint (snr ctx') = (if 100 < sint (snr ctx) + 1 then - 100 else sint (snr ctx) + 1)
           \<and> meter_values sent = [sint (snr ctx)]"
proof -
  from assms(5) have "sint (snr ctx) < 32767" by simp
  then have s: "sint (snr ctx + 1) = sint (snr ctx) + 1" by (rule sint_snr_succ)
  have m: "sint (- 100 :: 16 word) = - 100" by simp
  show ?thesis
    unfolding packet_rx_even [OF assms(1-3)] by (simp add: s m)
qed

lemma packet_rx_counter:
  assumes "\<not> tx ctx" and "unat (rx_phase ctx) < 24" and "even (get_packet_len packet)"
  shows "\<exists>ctx' sent. packet_rx packet ctx = Inr (ctx', sent)
         \<and> byte_data_counter ctx' = byte_data_counter ctx + 1
         \<and> (heartbeats sent \<noteq> [] \<longleftrightarrow> unat (byte_data_counter ctx') mod 100 = 0)
         \<and> (byte_data_counter ctx \<noteq> - 1 \<longrightarrow> unat (byte_data_counter ctx') = unat (byte_data_counter ctx) + 1)"
  unfolding packet_rx_even [OF assms] by (simp add: unat_counter_succ)

lemma packet_rx_heartbeat:
  assumes "\<not> tx ctx" and "unat (rx_phase ctx) < 24" and "even (get_packet_len packet)"
    and "unat (byte_data_counter ctx + 1) mod 100 = 0"
  shows "\<exists>ctx' sent. packet_rx packet ctx = Inr (ctx', sent)
         \<and> byte_data_counter ctx' = byte_data_counter ctx + 1
         \<and> heartbeats sent =
              [''Callback Counter: '' @ dec_int (sint (byte_data_counter ctx')) @ [CHR 0x0A, CHR 0x00]]"
  unfolding packet_rx_even [OF assms(1-3)] using assms(4)
  by (simp add: data_message_def counter_text_def)

lemma packet_rx_phase_ok:
  assumes "phase_ok ctx" and "packet_rx packet ctx = Inr (ctx', sent)"
  shows "phase_ok ctx'"
proof (cases "tx ctx")
  case True
  with assms show ?thesis by (simp add: packet_rx_def)
next
  case False
  from assms(1) have ph: "unat (rx_phase ctx) < 24" by (simp add: phase_ok_def)
  show ?thesis
  proof (cases "even (get_packet_len packet)")
    case True
    from assms(2) have "ctx' = ctx\<lparr>rx_phase := word_of_nat ((unat (rx_phase ctx) + get_packet_len packet div 2) mod 24),
             snr := (if 100 < sint (snr ctx + 1) then - 100 else snr ctx + 1),
             byte_data_counter := byte_data_counter ctx + 1\<rparr>"
      unfolding packet_rx_even [OF False ph True] by simp
    with assms(1) show ?thesis by (simp add: phase_ok_def unat_phase_mod)
  next
    case odd: False
    from assms(2) show ?thesis unfolding packet_rx_odd [OF False ph odd] by simp
  qed
qed

lemma packet_tx_phase_ok:
  assumes "phase_ok ctx" and "packet_tx packet ctx = Inr (ctx', sent)"
  shows "phase_ok ctx'"
proof (cases "tx ctx")
  case False
  with assms show ?thesis by (simp add: packet_tx_def)
next
  case True
  from assms(1) have ph: "unat (tx_phase ctx) < 24" by (simp add: phase_ok_def)
  show ?thesis
  proof (cases "even (get_packet_len packet)")
    case even: True
    from assms(2) have "ctx' = ctx\<lparr>tx_phase := word_of_nat ((unat (tx_phase ctx) + get_packet_len packet div 2) mod 24)\<rparr>"
      unfolding packet_tx_even [OF True ph even] by simp
    with assms(1) show ?thesis by (simp add: phase_ok_def unat_phase_mod)
  next
    case odd: False
    from assms(2) show ?thesis unfolding packet_tx_odd [OF True ph odd] by simp
  qed
qed

lemma state_test_phase_ok: "phase_ok ctx \<Longrightarrow> phase_ok (fst (state_test state ctx))"
  by (cases state) (simp_all add: phase_ok_def)

lemma handlers_return:
  assumes "phase_ok ctx" and "even (get_packet_len packet)"
  shows "\<exists>ctx' sent. packet_rx packet ctx = Inr (ctx', sent)"
    and "\<exists>ctx' sent. packet_tx packet ctx = Inr (ctx', sent)"
proof -
  from assms(1) have ph: "unat (rx_phase ctx) < 24" "unat (tx_phase ctx) < 24"
    by (simp_all add: phase_ok_def)
  show "\<exists>ctx' sent. packet_rx packet ctx = Inr (ctx', sent)"
  proof (cases "tx ctx")
    case True
    then show ?thesis by (simp add: packet_rx_def)
  next
    case False
    show ?thesis unfolding packet_rx_even [OF False ph(1) assms(2)] by blast
  qed
  show "\<exists>ctx' sent. packet_tx packet ctx = Inr (ctx', sent)"
  proof (cases "tx ctx")
    case False
    then show ?thesis by (simp add: packet_tx_def)
  next
    case True
    show ?thesis unfolding packet_tx_even [OF True ph(2) assms(2)] by blast
  qed
qed

section \<open>Runs of receive packets\<close>

lemma speaker_samples_append: "speaker_samples (es @ fs) = speaker_samples es @ speaker_samples fs"
  by (induction es rule: speaker_samples.induct) simp_all

lemma meter_values_append: "meter_values (es @ fs) = meter_values es @ meter_values fs"
  by (induction es rule: meter_values.induct) simp_all

lemma heartbeats_append: "heartbeats (es @ fs) = heartbeats es @ heartbeats fs"
  by (induction es rule: heartbeats.induct) simp_all

lemma pairs_Cons: "pairs (p # ps) = get_packet_len p div 2 + pairs ps"
  by (simp add: pairs_def)

lemma pairs_Nil: "pairs [] = 0"
  by (simp add: pairs_def)

lemma pairs_replicate: "pairs (replicate n \<lparr>get_packet_len = 2\<rparr>) = n"
  by (simp add: pairs_def sum_list_replicate)

lemma rx_run_closed:
  assumes "\<forall>p \<in> set ps. even (get_packet_len p)"
    and "\<not> tx ctx" and "unat (rx_phase ctx) < 24"
    and "sint (snr ctx) = sawtooth k"
    and "byte_data_counter ctx = word_of_nat j"
  shows "\<exists>ctx' es. rx_run ps ctx = Inr (ctx', es)
    \<and> unat (rx_phase ctx') = (unat (rx_phase ctx) + pairs ps) mod 24
    \<and> tx_phase ctx' = tx_phase ctx \<and> \<not> tx ctx'
    \<and> sint (snr ctx') = sawtooth (k + length ps)
    \<and> byte_data_counter ctx' = word_of_nat (j + length ps)
    \<and> speaker_samples es = stereo (unat (rx_phase ctx)) (pairs ps)
    \<and> meter_values es = map sawtooth [k ..< k + length ps]
    \<and> (j + length ps < 2 ^ 64 \<longrightarrow> heartbeats es =
        map (\<lambda>i. data_message (word_of_nat i)) (filter (\<lambda>i. i mod 100 = 0) [Suc j ..< Suc (j + length ps)]))"
  using assms
proof (induction ps arbitrary: ctx k j)
  case Nil
  then show ?case by (simp add: pairs_Nil)
next
  case (Cons p ps)
  define a where "a = unat (rx_phase ctx)"
  define l where "l = get_packet_len p div 2"
  define c1 :: "64 word" where "c1 = byte_data_counter ctx + 1"
  define ctx1 where "ctx1 = ctx\<lparr>rx_phase := word_of_nat ((a + l) mod 24),
             snr := (if 100 < sint (snr ctx + 1) then - 100 else snr ctx + 1),
             byte_data_counter := c1\<rparr>"
  define beat where "beat = (if unat c1 mod 100 = 0 then [Send_byte_data_packet (data_message c1)] else [])"
  define sent1 where "sent1 =
         [Send_data_packet (stereo a l) (get_packet_len p) SPEAKER_DATA,
          Meter_set_float_value ''junk-snr'' (sint (snr ctx)),
          Meters_send] @ beat"
  from Cons.prems have ev: "even (get_packet_len p)" by simp
  then have len: "get_packet_len p = 2 * l" by (simp add: l_def)
  have step: "packet_rx p ctx = Inr (ctx1, sent1)"
    using packet_rx_even [OF Cons.prems(2) Cons.prems(3) ev]
    by (simp add: ctx1_def sent1_def beat_def a_def l_def c1_def)
  have c1: "c1 = word_of_nat (Suc j)" by (simp add: c1_def Cons.prems(5))
  have uc1: "unat c1 = Suc j" if "Suc j < 2 ^ 64"
  proof -
    from that have "Suc j < 2 ^ LENGTH(64)" by simp
    then show ?thesis unfolding c1 by (rule of_nat_inverse [OF refl])
  qed
  have ph1: "unat (rx_phase ctx1) = (a + l) mod 24"
    by (simp add: ctx1_def unat_phase_mod)
  have "\<exists>ctx' es. rx_run ps ctx1 = Inr (ctx', es)
    \<and> unat (rx_phase ctx') = (unat (rx_phase ctx1) + pairs ps) mod 24
    \<and> tx_phase ctx' = tx_phase ctx1 \<and> \<not> tx ctx'
    \<and> sint (snr ctx') = sawtooth (Suc k + length ps)
    \<and> byte_data_counter ctx' = word_of_nat (Suc j + length ps)
    \<and> speaker_samples es = stereo (unat (rx_phase ctx1)) (pairs ps)
    \<and> meter_values es = map sawtooth [Suc k ..< Suc k + length ps]
    \<and> (Suc j + length ps < 2 ^ 64 \<longrightarrow> heartbeats es =
        map (\<lambda>i. data_message (word_of_nat i)) (filter (\<lambda>i. i mod 100 = 0) [Suc (Suc j) ..< Suc (Suc j + length ps)]))"
  proof (rule Cons.IH)
    show "\<forall>p \<in> set ps. even (get_packet_len p)" using Cons.prems(1) by simp
    show "\<not> tx ctx1" using Cons.prems(2) by (simp add: ctx1_def)
    show "unat (rx_phase ctx1) < 24" by (simp add: ph1)
    show "sint (snr ctx1) = sawtooth (Suc k)"
      using snr_step [OF Cons.prems(4)] by (simp add: ctx1_def)
    show "byte_data_counter ctx1 = word_of_nat (Suc j)" by (simp add: ctx1_def c1)
  qed
  then obtain ctx' es where run: "rx_run ps ctx1 = Inr (ctx', es)"
    and ph: "unat (rx_phase ctx') = (unat (rx_phase ctx1) + pairs ps) mod 24"
    and frame: "tx_phase ctx' = tx_phase ctx1" "\<not> tx ctx'"
    and sn: "sint (snr ctx') = sawtooth (Suc k + length ps)"
    and cnt: "byte_data_counter ctx' = word_of_nat (Suc j + length ps)"
    and sp: "speaker_samples es = stereo (unat (rx_phase ctx1)) (pairs ps)"
    and mv: "meter_values es = map sawtooth [Suc k ..< Suc k + length ps]"
    and hb: "Suc j + length ps < 2 ^ 64 \<longrightarrow> heartbeats es =
        map (\<lambda>i. data_message (word_of_nat i)) (filter (\<lambda>i. i mod 100 = 0) [Suc (Suc j) ..< Suc (Suc j + length ps)])"
    by blast
  have r: "rx_run (p # ps) ctx = Inr (ctx', sent1 @ es)"
    by (simp add: step run)
  have g1: "unat (rx_phase ctx') = (unat (rx_phase ctx) + pairs (p # ps)) mod 24"
    unfolding ph ph1 pairs_Cons by (simp add: a_def l_def mod_simps add.assoc)
  have g2: "tx_phase ctx' = tx_phase ctx" using frame by (simp add: ctx1_def)
  have g4: "sint (snr ctx') = sawtooth (k + length (p # ps))" using sn by simp
  have g5: "byte_data_counter ctx' = word_of_nat (j + length (p # ps))" using cnt by simp
  have hb_beat: "heartbeats beat = (if Suc j mod 100 = 0 then [data_message (word_of_nat (Suc j))] else [])"
    if "Suc j < 2 ^ 64"
    unfolding beat_def uc1 [OF that] by (simp add: c1)
  have sp1: "speaker_samples sent1 = stereo a l"
    unfolding sent1_def beat_def by (simp add: len length_stereo)
  have "stereo ((a + l) mod 24) (pairs ps) = stereo (a + l) (pairs ps)" by (rule stereo_mod)
  then have g6: "speaker_samples (sent1 @ es) = stereo (unat (rx_phase ctx)) (pairs (p # ps))"
    unfolding speaker_samples_append sp1 sp ph1 pairs_Cons
    by (simp add: stereo_append a_def l_def)
  have mv1: "meter_values sent1 = [sawtooth k]"
    unfolding sent1_def beat_def by (simp add: Cons.prems(4))
  have g7: "meter_values (sent1 @ es) = map sawtooth [k ..< k + length (p # ps)]"
  proof -
    have "[k ..< k + length (p # ps)] = k # [Suc k ..< Suc k + length ps]"
      by (subst upt_rec) simp
    then show ?thesis unfolding meter_values_append mv1 mv by simp
  qed
  have hb1: "heartbeats sent1 = heartbeats beat"
    unfolding sent1_def by simp
  have g8: "heartbeats (sent1 @ es) =
        map (\<lambda>i. data_message (word_of_nat i)) (filter (\<lambda>i. i mod 100 = 0) [Suc j ..< Suc (j + length (p # ps))])"
    if bound: "j + length (p # ps) < 2 ^ 64"
  proof -
    from bound have b1: "Suc j < 2 ^ 64" and b2: "Suc j + length ps < 2 ^ 64" by simp_all
    have "[Suc j ..< Suc (j + length (p # ps))] = Suc j # [Suc (Suc j) ..< Suc (Suc j + length ps)]"
      by (subst upt_rec) simp
    then show ?thesis
      unfolding heartbeats_append hb1 hb_beat [OF b1] hb [rule_format, OF b2] by simp
  qed
  from r g1 g2 frame(2) g4 g5 g6 g7 g8 show ?case by blast
qed

lemma ctx0_fields:
  "tx ctx0 = False" "rx_phase ctx0 = 0" "tx_phase ctx0 = 0" "snr ctx0 = 0" "byte_data_counter ctx0 = 0"
  by (simp_all add: ctx0_def)

lemma rx_run_ctx0:
  assumes "\<forall>p \<in> set ps. even (get_packet_len p)"
  shows "\<exists>ctx' es. rx_run ps ctx0 = Inr (ctx', es)
    \<and> unat (rx_phase ctx') = pairs ps mod 24
    \<and> tx_phase ctx' = 0 \<and> \<not> tx ctx'
    \<and> sint (snr ctx') = sawtooth (length ps)
    \<and> byte_data_counter ctx' = word_of_nat (length ps)
    \<and> speaker_samples es = stereo 0 (pairs ps)
    \<and> meter_values es = map sawtooth [0 ..< length ps]
    \<and> (length ps < 2 ^ 64 \<longrightarrow> heartbeats es =
        map (\<lambda>i. data_message (word_of_nat i)) (filter (\<lambda>i. i mod 100 = 0) [Suc 0 ..< Suc (length ps)]))"
proof -
  have "\<exists>ctx' es. rx_run ps ctx0 = Inr (ctx', es)
    \<and> unat (rx_phase ctx') = (unat (rx_phase ctx0) + pairs ps) mod 24
    \<and> tx_phase ctx' = tx_phase ctx0 \<and> \<not> tx ctx'
    \<and> sint (snr ctx') = sawtooth (0 + length ps)
    \<and> byte_data_counter ctx' = word_of_nat (0 + length ps)
    \<and> speaker_samples es = stereo (unat (rx_phase ctx0)) (pairs ps)
    \<and> meter_values es = map sawtooth [0 ..< 0 + length ps]
    \<and> (0 + length ps < 2 ^ 64 \<longrightarrow> heartbeats es =
        map (\<lambda>i. data_message (word_of_nat i)) (filter (\<lambda>i. i mod 100 = 0) [Suc 0 ..< Suc (0 + length ps)]))"
    by (rule rx_run_closed) (use assms in \<open>simp_all add: ctx0_fields sawtooth_0\<close>)
  then show ?thesis
    by (simp only: ctx0_fields add_0 unat_0)
qed

lemma hundreds: "filter (\<lambda>i. i mod 100 = 0) [Suc 0 ..< Suc 250] = [100, 200]"
  by code_simp

lemma no_hundreds: "filter (\<lambda>i. i mod 100 = 0) [Suc 0 ..< Suc 24] = []"
  by code_simp

lemma rx_run_counter:
  assumes "\<forall>packet \<in> set packets. even (get_packet_len packet)" and "length packets < 2 ^ 64"
  shows "\<exists>ctx' sent. rx_run packets ctx0 = Inr (ctx', sent)
           \<and> unat (byte_data_counter ctx') = length packets
           \<and> heartbeats sent = map (\<lambda>i. data_message (word_of_nat i))
                 (filter (\<lambda>i. i mod 100 = 0) [Suc 0 ..< Suc (length packets)])"
proof -
  from rx_run_ctx0 [OF assms(1)] assms(2) obtain ctx' sent
    where r: "rx_run packets ctx0 = Inr (ctx', sent)"
      and c: "byte_data_counter ctx' = word_of_nat (length packets)"
      and h: "heartbeats sent = map (\<lambda>i. data_message (word_of_nat i))
                 (filter (\<lambda>i. i mod 100 = 0) [Suc 0 ..< Suc (length packets)])"
    by blast
  from assms(2) have "length packets < 2 ^ LENGTH(64)" by simp
  then have "unat (byte_data_counter ctx') = length packets"
    unfolding c by (rule of_nat_inverse [OF refl])
  with r h show ?thesis by blast
qed

lemma rx_run_24:
  "\<exists>ctx' sent. rx_run (replicate 24 \<lparr>get_packet_len = 2\<rparr>) ctx0 = Inr (ctx', sent)
     \<and> speaker_samples sent = concat (map (\<lambda>x. [x / 2, x / 2]) sin_table)
     \<and> meter_values sent = map int [0 ..< 24]
     \<and> sint (snr ctx') = 24
     \<and> heartbeats sent = []
     \<and> rx_phase ctx' = 0
     \<and> byte_data_counter ctx' = 24"
proof -
  have ev: "\<forall>p \<in> set (replicate 24 \<lparr>get_packet_len = 2\<rparr>). even (get_packet_len p)" by simp
  from rx_run_ctx0 [OF ev] obtain ctx' sent
    where r: "rx_run (replicate 24 \<lparr>get_packet_len = 2\<rparr>) ctx0 = Inr (ctx', sent)"
      and ph: "unat (rx_phase ctx') = pairs (replicate 24 \<lparr>get_packet_len = 2\<rparr>) mod 24"
      and sn: "sint (snr ctx') = sawtooth (length (replicate 24 \<lparr>get_packet_len = 2\<rparr>))"
      and cn: "byte_data_counter ctx' = word_of_nat (length (replicate 24 \<lparr>get_packet_len = 2\<rparr>))"
      and sp: "speaker_samples sent = stereo 0 (pairs (replicate 24 \<lparr>get_packet_len = 2\<rparr>))"
      and mv: "meter_values sent = map sawtooth [0 ..< length (replicate 24 \<lparr>get_packet_len = 2\<rparr>)]"
      and hb: "length (replicate 24 \<lparr>get_packet_len = 2\<rparr>) < 2 ^ 64 \<longrightarrow> heartbeats sent =
        map (\<lambda>i. data_message (word_of_nat i))
          (filter (\<lambda>i. i mod 100 = 0) [Suc 0 ..< Suc (length (replicate 24 \<lparr>get_packet_len = 2\<rparr>))])"
    by blast
  from ph have "unat (rx_phase ctx') = 0" by (simp add: pairs_replicate)
  then have g1: "rx_phase ctx' = 0" by (simp add: unat_eq_0)
  from sn have g2: "sint (snr ctx') = 24" by (simp add: sawtooth_def)
  from cn have g3: "byte_data_counter ctx' = 24" by simp
  from sp have g4: "speaker_samples sent = concat (map (\<lambda>x. [x / 2, x / 2]) sin_table)"
    by (simp only: pairs_replicate one_cycle)
  from hb have g5: "heartbeats sent = []" by (simp add: no_hundreds)
  have "map sawtooth [0 ..< 24] = map int [0 ..< 24]"
    by (rule map_cong) (simp_all add: sawtooth_def)
  with mv have g6: "meter_values sent = map int [0 ..< 24]" by simp
  from r g1 g2 g3 g4 g5 g6 show ?thesis by blast
qed

lemma rx_run_100:
  "\<exists>ctx' sent. rx_run (replicate 100 \<lparr>get_packet_len = 2\<rparr>) ctx0 = Inr (ctx', sent)
     \<and> heartbeats sent = [''Callback Counter: 100'' @ [CHR 0x0A, CHR 0x00]]"
proof -
  have ev: "\<forall>p \<in> set (replicate 100 \<lparr>get_packet_len = 2\<rparr>). even (get_packet_len p)" by simp
  from rx_run_ctx0 [OF ev] obtain ctx' sent
    where r: "rx_run (replicate 100 \<lparr>get_packet_len = 2\<rparr>) ctx0 = Inr (ctx', sent)"
      and hb: "length (replicate 100 \<lparr>get_packet_len = 2\<rparr>) < 2 ^ 64 \<longrightarrow> heartbeats sent =
        map (\<lambda>i. data_message (word_of_nat i))
          (filter (\<lambda>i. i mod 100 = 0) [Suc 0 ..< Suc (length (replicate 100 \<lparr>get_packet_len = 2\<rparr>))])"
    by blast
  have "filter (\<lambda>i. i mod 100 = 0) [Suc 0 ..< 101] = [100 :: nat]" by code_simp
  with hb have "heartbeats sent = [data_message 100]" by simp
  then have "heartbeats sent = [''Callback Counter: 100'' @ [CHR 0x0A, CHR 0x00]]"
    by (simp only: data_message_100)
  with r show ?thesis by blast
qed

section \<open>Dispatch on the transmit flag\<close>

text \<open>
  Claim C1. While the transmit flag is set, \<open>packet_rx\<close> returns at once: it sends
  nothing (no sample block, no meter value, no heartbeat) and the context it leaves is
  the context it found, every field included. While the flag is clear, the same holds
  of \<open>packet_tx\<close>. Neither depends on the packet, whatever its length.
\<close>

theorem mutual_exclusion_dispatch:
  "(tx ctx \<longrightarrow> packet_rx packet ctx = Inr (ctx, []))
   \<and> (\<not> tx ctx \<longrightarrow> packet_tx packet ctx = Inr (ctx, []))"
  by (simp add: packet_rx_def packet_tx_def)

theorem mutual_exclusion_dispatch_witness:
  "packet_rx \<lparr>get_packet_len = 4\<rparr> (ctx0\<lparr>tx := True\<rparr>) = Inr (ctx0\<lparr>tx := True\<rparr>, [])
   \<and> packet_tx \<lparr>get_packet_len = 4\<rparr> ctx0 = Inr (ctx0, [])"
  using mutual_exclusion_dispatch [of "ctx0\<lparr>tx := True\<rparr>" "\<lparr>get_packet_len = 4\<rparr>"]
    mutual_exclusion_dispatch [of ctx0 "\<lparr>get_packet_len = 4\<rparr>"]
  by (simp add: ctx0_def)

section \<open>Waveform synthesis\<close>

text \<open>
  Claim C2. (1) The loop run over \<open>2 * n\<close> samples from phase 0 makes \<open>n\<close> phase
  advances and leaves the phase at \<open>n mod 24\<close>, for every \<open>n\<close>. (2) One iteration at
  index \<open>i\<close> writes the same value, \<open>sin_table[phase]\<close> times 0.5, at the two positions
  \<open>i\<close> and \<open>i + 1\<close>, and advances the phase once, modulo 24; the binary32 product with
  0.5 is exact, so the value is the table entry halved. (3) The buffer filled from phase
  \<open>p\<close> holds, at the positions \<open>2 * j\<close> and \<open>2 * j + 1\<close> of its \<open>j\<close>-th stereo pair,
  the halved table entry of index \<open>(p + j) mod 24\<close>. (4) Any 24 consecutive stereo pairs,
  starting \<open>w\<close> pairs into the output, are the 24 halved table entries in cyclic order,
  beginning at entry \<open>w mod 24\<close>, on the left and on the right channel: the window is the
  table itself when it starts at a multiple of 24, and the table rotated otherwise.
  (5) The same holds across packets: a run of receive packets of even lengths from the
  zero-initialised context returns, leaves the receive phase at the number of pairs
  modulo 24, and the speaker samples of all packets together are one unbroken tone.
\<close>

theorem waveform_synthesis:
  "fill_samples (2 * n) 0 (replicate (2 * n) 0) 0 = Inr (stereo 0 n, word_of_nat (n mod 24))
   \<and> unat (word_of_nat (n mod 24) :: 8 word) = n mod 24
   \<and> (i < len \<and> unat phase < 24 \<and> i + 1 < length buf \<longrightarrow>
        fill_samples len i buf phase =
          fill_samples len (i + 2)
            (buf[i + 1 := sin_table ! unat phase / 2, i := sin_table ! unat phase / 2])
            (word_of_nat ((unat phase + 1) mod 24)))
   \<and> (k < 24 \<longrightarrow> fmul32 (sin_table ! k) (binary32 0.5) = sin_table ! k / 2)
   \<and> length (stereo p n) = 2 * n
   \<and> (j < n \<longrightarrow> stereo p n ! (2 * j) = sin_table ! ((p + j) mod 24) / 2
              \<and> stereo p n ! (2 * j + 1) = sin_table ! ((p + j) mod 24) / 2)
   \<and> (w + 24 \<le> n \<longrightarrow>
        map (\<lambda>j. stereo 0 n ! (2 * (w + j))) [0 ..< 24] = rotate (w mod 24) (map (\<lambda>x. x / 2) sin_table)
        \<and> map (\<lambda>j. stereo 0 n ! (2 * (w + j) + 1)) [0 ..< 24] = rotate (w mod 24) (map (\<lambda>x. x / 2) sin_table))
   \<and> ((\<forall>packet \<in> set packets. even (get_packet_len packet)) \<longrightarrow>
        (\<exists>ctx' sent. rx_run packets ctx0 = Inr (ctx', sent)
           \<and> unat (rx_phase ctx') = pairs packets mod 24
           \<and> speaker_samples sent = stereo 0 (pairs packets)))"
proof -
  have a: "fill_samples (2 * n) 0 (replicate (2 * n) 0) 0 = Inr (stereo 0 n, word_of_nat (n mod 24))"
    using fill_samples_even [of "2 * n" 0 "replicate (2 * n) 0" 0] by simp
  have b: "unat (word_of_nat (n mod 24) :: 8 word) = n mod 24" by (rule unat_phase_mod)
  have c: "i < len \<and> unat phase < 24 \<and> i + 1 < length buf \<longrightarrow>
        fill_samples len i buf phase =
          fill_samples len (i + 2)
            (buf[i + 1 := sin_table ! unat phase / 2, i := sin_table ! unat phase / 2])
            (word_of_nat ((unat phase + 1) mod 24))"
    using fill_samples_step by blast
  have d: "k < 24 \<longrightarrow> fmul32 (sin_table ! k) (binary32 0.5) = sin_table ! k / 2"
    using scaled_entry by blast
  have e: "length (stereo p n) = 2 * n" by (rule length_stereo)
  have f: "j < n \<longrightarrow> stereo p n ! (2 * j) = sin_table ! ((p + j) mod 24) / 2
              \<and> stereo p n ! (2 * j + 1) = sin_table ! ((p + j) mod 24) / 2"
    using stereo_pair by blast
  have g: "w + 24 \<le> n \<longrightarrow>
        map (\<lambda>j. stereo 0 n ! (2 * (w + j))) [0 ..< 24] = rotate (w mod 24) (map (\<lambda>x. x / 2) sin_table)
        \<and> map (\<lambda>j. stereo 0 n ! (2 * (w + j) + 1)) [0 ..< 24] = rotate (w mod 24) (map (\<lambda>x. x / 2) sin_table)"
    using stereo_window by blast
  have h: "(\<forall>packet \<in> set packets. even (get_packet_len packet)) \<longrightarrow>
        (\<exists>ctx' sent. rx_run packets ctx0 = Inr (ctx', sent)
           \<and> unat (rx_phase ctx') = pairs packets mod 24
           \<and> speaker_samples sent = stereo 0 (pairs packets))"
    using rx_run_ctx0 [of packets] by blast
  from a b c d e f g h show ?thesis by (intro conjI)
qed

theorem waveform_synthesis_witness:
  "fill_samples (2 * 25) 0 (replicate (2 * 25) 0) 0 = Inr (stereo 0 25, word_of_nat (25 mod 24))
   \<and> unat (word_of_nat (25 mod 24) :: 8 word) = 25 mod 24
   \<and> fill_samples 2 0 [7, 7] 23 = fill_samples 2 (0 + 2) ([7, 7][0 + 1 := sin_table ! 23 / 2, 0 := sin_table ! 23 / 2]) (word_of_nat ((23 + 1) mod 24))
   \<and> fmul32 (sin_table ! 1) (binary32 0.5) = sin_table ! 1 / 2
   \<and> stereo 3 25 ! (2 * 24) = sin_table ! ((3 + 24) mod 24) / 2
   \<and> stereo 3 25 ! (2 * 24 + 1) = sin_table ! ((3 + 24) mod 24) / 2
   \<and> map (\<lambda>j. stereo 0 25 ! (2 * (1 + j))) [0 ..< 24] = rotate (1 mod 24) (map (\<lambda>x. x / 2) sin_table)
   \<and> map (\<lambda>j. stereo 0 25 ! (2 * (1 + j) + 1)) [0 ..< 24] = rotate (1 mod 24) (map (\<lambda>x. x / 2) sin_table)
   \<and> (\<exists>ctx' sent. rx_run [\<lparr>get_packet_len = 48\<rparr>, \<lparr>get_packet_len = 2\<rparr>] ctx0 = Inr (ctx', sent)
           \<and> unat (rx_phase ctx') = pairs [\<lparr>get_packet_len = 48\<rparr>, \<lparr>get_packet_len = 2\<rparr>] mod 24
           \<and> speaker_samples sent = stereo 0 (pairs [\<lparr>get_packet_len = 48\<rparr>, \<lparr>get_packet_len = 2\<rparr>]))"
proof -
  note t = waveform_synthesis [where n = 25 and i = 0 and len = 2 and phase = 23 and buf = "[7, 7]"
      and k = 1 and p = 3 and j = 24 and w = 1
      and packets = "[\<lparr>get_packet_len = 48\<rparr>, \<lparr>get_packet_len = 2\<rparr>]"]
  have h1: "(0::nat) < 2 \<and> unat (23 :: 8 word) < 24 \<and> 0 + 1 < length [7 :: sample, 7]" by simp
  have h2: "(1::nat) < 24" by simp
  have h3: "(24::nat) < 25" by simp
  have h4: "(1::nat) + 24 \<le> 25" by simp
  have h5: "\<forall>packet \<in> set [\<lparr>get_packet_len = 48\<rparr>, \<lparr>get_packet_len = 2\<rparr>]. even (get_packet_len packet)"
    by simp
  have u: "unat (23 :: 8 word) = 23" by simp
  from t h1 h2 h3 h4 h5 show ?thesis unfolding u by blast
qed

section \<open>The sawtooth\<close>

text \<open>
  Claim C3. \<open>sawtooth\<close> is the sequence of the specification: it starts at 0, each
  next value is the previous one plus 1 unless that exceeds 100, in which case it is
  -100, and it stays within \<open>[-100, 100]\<close>; around the reset it reads
  \<open>98, 99, 100, -100, -99, -98\<close>. After \<open>k\<close> processed (non-transmitting) receive
  packets from the zero-initialised context \<open>snr\<close> is \<open>sawtooth k\<close>, and the meter
  values sent by these calls are \<open>sawtooth 0, \<dots>, sawtooth (k - 1)\<close>. One processed call
  on any context with \<open>snr\<close> in \<open>[-100, 100]\<close> sends the current \<open>snr\<close> and then adds 1 to
  it, or sets it to -100 when the incremented value exceeds 100.
\<close>

theorem sawtooth_metric:
  "sawtooth 0 = 0
   \<and> sawtooth (Suc k) = (if 100 < sawtooth k + 1 then - 100 else sawtooth k + 1)
   \<and> - 100 \<le> sawtooth k \<and> sawtooth k \<le> 100
   \<and> map sawtooth [0 ..< 4] = [0, 1, 2, 3]
   \<and> map sawtooth [98 ..< 104] = [98, 99, 100, - 100, - 99, - 98]
   \<and> ((\<forall>packet \<in> set packets. even (get_packet_len packet)) \<longrightarrow>
        (\<exists>ctx' sent. rx_run packets ctx0 = Inr (ctx', sent)
           \<and> sint (snr ctx') = sawtooth (length packets)
           \<and> meter_values sent = map sawtooth [0 ..< length packets]))
   \<and> (\<not> tx ctx \<and> unat (rx_phase ctx) < 24 \<and> even (get_packet_len packet)
        \<and> - 100 \<le> sint (snr ctx) \<and> sint (snr ctx) \<le> 100 \<longrightarrow>
        (\<exists>ctx' sent. packet_rx packet ctx = Inr (ctx', sent)
           \<and> sint (snr ctx') = (if 100 < sint (snr ctx) + 1 then - 100 else sint (snr ctx) + 1)
           \<and> meter_values sent = [sint (snr ctx)]))"
proof -
  have a: "map sawtooth [0 ..< 4] = [0, 1, 2, 3]" by code_simp
  have b: "map sawtooth [98 ..< 104] = [98, 99, 100, - 100, - 99, - 98]" by code_simp
  have c: "(\<forall>packet \<in> set packets. even (get_packet_len packet)) \<longrightarrow>
        (\<exists>ctx' sent. rx_run packets ctx0 = Inr (ctx', sent)
           \<and> sint (snr ctx') = sawtooth (length packets)
           \<and> meter_values sent = map sawtooth [0 ..< length packets])"
    using rx_run_ctx0 [of packets] by blast
  have d: "\<not> tx ctx \<and> unat (rx_phase ctx) < 24 \<and> even (get_packet_len packet)
        \<and> - 100 \<le> sint (snr ctx) \<and> sint (snr ctx) \<le> 100 \<longrightarrow>
        (\<exists>ctx' sent. packet_rx packet ctx = Inr (ctx', sent)
           \<and> sint (snr ctx') = (if 100 < sint (snr ctx) + 1 then - 100 else sint (snr ctx) + 1)
           \<and> meter_values sent = [sint (snr ctx)])"
    using packet_rx_snr by blast
  from sawtooth_0 sawtooth_Suc [of k] sawtooth_range [of k] a b c d show ?thesis
    by (intro conjI) simp_all
qed

theorem sawtooth_metric_witness:
  "sawtooth (Suc 100) = (if 100 < sawtooth 100 + 1 then - 100 else sawtooth 100 + 1)
   \<and> (\<exists>ctx' sent. rx_run [\<lparr>get_packet_len = 2\<rparr>, \<lparr>get_packet_len = 4\<rparr>, \<lparr>get_packet_len = 2\<rparr>] ctx0 = Inr (ctx', sent)
           \<and> sint (snr ctx') = sawtooth (length [\<lparr>get_packet_len = 2\<rparr>, \<lparr>get_packet_len = 4\<rparr>, \<lparr>get_packet_len = 2\<rparr>])
           \<and> meter_values sent = map sawtooth [0 ..< length [\<lparr>get_packet_len = 2\<rparr>, \<lparr>get_packet_len = 4\<rparr>, \<lparr>get_packet_len = 2\<rparr>]])
   \<and> (\<exists>ctx' sent. packet_rx \<lparr>get_packet_len = 2\<rparr> (ctx0\<lparr>snr := 100\<rparr>) = Inr (ctx', sent)
           \<and> sint (snr ctx') = (if 100 < sint (snr (ctx0\<lparr>snr := 100\<rparr>)) + 1 then - 100 else sint (snr (ctx0\<lparr>snr := 100\<rparr>)) + 1)
           \<and> meter_values sent = [sint (snr (ctx0\<lparr>snr := 100\<rparr>))])"
proof -
  note t = sawtooth_metric [where k = 100
      and packets = "[\<lparr>get_packet_len = 2\<rparr>, \<lparr>get_packet_len = 4\<rparr>, \<lparr>get_packet_len = 2\<rparr>]"
      and ctx = "ctx0\<lparr>snr := 100\<rparr>" and packet = "\<lparr>get_packet_len = 2\<rparr>"]
  have h1: "\<forall>packet \<in> set [\<lparr>get_packet_len = 2\<rparr>, \<lparr>get_packet_len = 4\<rparr>, \<lparr>get_packet_len = 2\<rparr>]. even (get_packet_len packet)"
    by simp
  have h2: "\<not> tx (ctx0\<lparr>snr := 100\<rparr>) \<and> unat (rx_phase (ctx0\<lparr>snr := 100\<rparr>)) < 24
      \<and> even (get_packet_len \<lparr>get_packet_len = 2\<rparr>)
      \<and> - 100 \<le> sint (snr (ctx0\<lparr>snr := 100\<rparr>)) \<and> sint (snr (ctx0\<lparr>snr := 100\<rparr>)) \<le> 100"
    by (simp add: ctx0_def)
  from t h1 h2 show ?thesis by blast
qed

section \<open>Heartbeat gating\<close>

text \<open>
  Claim C4, as stated, fails where the 64-bit counter wraps: on a
  context whose \<open>byte_data_counter\<close> is \<open>2 ^ 64 - 1\<close> a processed call increments it to
  0, which is a multiple of 100 but not a positive one, and the heartbeat is sent, with
  the text "Callback Counter: 0"; the counter has decreased.
\<close>

theorem heartbeat_gating_counterexample:
  "packet_rx \<lparr>get_packet_len = 2\<rparr> (ctx0\<lparr>byte_data_counter := - 1\<rparr>) =
     Inr (ctx0\<lparr>rx_phase := 1, snr := 1, byte_data_counter := 0\<rparr>,
          [Send_data_packet [0, 0] 2 SPEAKER_DATA,
           Meter_set_float_value ''junk-snr'' 0,
           Meters_send,
           Send_byte_data_packet (''Callback Counter: 0'' @ [CHR 0x0A, CHR 0x00])])
   \<and> unat (byte_data_counter (ctx0\<lparr>byte_data_counter := - 1\<rparr>)) = 18446744073709551615
   \<and> unat (byte_data_counter (ctx0\<lparr>rx_phase := 1, snr := 1, byte_data_counter := 0\<rparr>)) = 0"
proof -
  have "packet_rx \<lparr>get_packet_len = 2\<rparr> (ctx0\<lparr>byte_data_counter := - 1\<rparr>) =
     Inr (ctx0\<lparr>rx_phase := 1, snr := 1, byte_data_counter := 0\<rparr>,
          [Send_data_packet [0, 0] 2 SPEAKER_DATA,
           Meter_set_float_value ''junk-snr'' 0,
           Meters_send,
           Send_byte_data_packet (''Callback Counter: 0'' @ [CHR 0x0A, CHR 0x00])])"
    by (subst packet_rx_even) (simp_all add: ctx0_def half_scale_0 data_message_0)
  then show ?thesis by (simp add: ctx0_def unsigned_minus_1_eq_mask mask_eq_exp_minus_1)
qed

text \<open>
  Claim C4, amended. A processed call of \<open>packet_rx\<close> adds 1 to the counter modulo
  \<open>2 ^ 64\<close> and sends a heartbeat if and only if the incremented counter is a multiple
  of 100; unless the counter was \<open>2 ^ 64 - 1\<close> the incremented counter is the old one
  plus 1, hence positive and larger. From the zero-initialised context, after fewer
  than \<open>2 ^ 64\<close> processed packets the counter is the number of packets and the
  heartbeats sent are those of the counts that are multiples of 100, in order; over
  the counts 1 to 250 these are 100 and 200.
\<close>

theorem heartbeat_gating:
  "(\<not> tx ctx \<and> unat (rx_phase ctx) < 24 \<and> even (get_packet_len packet) \<longrightarrow>
      (\<exists>ctx' sent. packet_rx packet ctx = Inr (ctx', sent)
         \<and> byte_data_counter ctx' = byte_data_counter ctx + 1
         \<and> (heartbeats sent \<noteq> [] \<longleftrightarrow> unat (byte_data_counter ctx') mod 100 = 0)
         \<and> (byte_data_counter ctx \<noteq> - 1 \<longrightarrow> unat (byte_data_counter ctx') = unat (byte_data_counter ctx) + 1)))
   \<and> ((\<forall>packet \<in> set packets. even (get_packet_len packet)) \<and> length packets < 2 ^ 64 \<longrightarrow>
        (\<exists>ctx' sent. rx_run packets ctx0 = Inr (ctx', sent)
           \<and> unat (byte_data_counter ctx') = length packets
           \<and> heartbeats sent = map (\<lambda>i. data_message (word_of_nat i))
                 (filter (\<lambda>i. i mod 100 = 0) [Suc 0 ..< Suc (length packets)])))
   \<and> filter (\<lambda>i. i mod 100 = 0) [Suc 0 ..< Suc 250] = [100 :: nat, 200]"
proof -
  have a: "\<not> tx ctx \<and> unat (rx_phase ctx) < 24 \<and> even (get_packet_len packet) \<longrightarrow>
      (\<exists>ctx' sent. packet_rx packet ctx = Inr (ctx', sent)
         \<and> byte_data_counter ctx' = byte_data_counter ctx + 1
         \<and> (heartbeats sent \<noteq> [] \<longleftrightarrow> unat (byte_data_counter ctx') mod 100 = 0)
         \<and> (byte_data_counter ctx \<noteq> - 1 \<longrightarrow> unat (byte_data_counter ctx') = unat (byte_data_counter ctx) + 1))"
    using packet_rx_counter [of ctx packet] by (intro impI) simp
  have b: "(\<forall>packet \<in> set packets. even (get_packet_len packet)) \<and> length packets < 2 ^ 64 \<longrightarrow>
        (\<exists>ctx' sent. rx_run packets ctx0 = Inr (ctx', sent)
           \<and> unat (byte_data_counter ctx') = length packets
           \<and> heartbeats sent = map (\<lambda>i. data_message (word_of_nat i))
                 (filter (\<lambda>i. i mod 100 = 0) [Suc 0 ..< Suc (length packets)]))"
    using rx_run_counter [of packets] by blast
  from a b hundreds show ?thesis by (intro conjI)
qed

theorem heartbeat_gating_witness:
  "(\<exists>ctx' sent. packet_rx \<lparr>get_packet_len = 2\<rparr> (ctx0\<lparr>byte_data_counter := 99\<rparr>) = Inr (ctx', sent)
         \<and> byte_data_counter ctx' = byte_data_counter (ctx0\<lparr>byte_data_counter := 99\<rparr>) + 1
         \<and> (heartbeats sent \<noteq> [] \<longleftrightarrow> unat (byte_data_counter ctx') mod 100 = 0)
         \<and> (byte_data_counter (ctx0\<lparr>byte_data_counter := 99\<rparr>) \<noteq> - 1 \<longrightarrow>
              unat (byte_data_counter ctx') = unat (byte_data_counter (ctx0\<lparr>byte_data_counter := 99\<rparr>)) + 1))
   \<and> byte_data_counter (ctx0\<lparr>byte_data_counter := 99\<rparr>) \<noteq> - 1
   \<and> (\<exists>ctx' sent. rx_run (replicate 250 \<lparr>get_packet_len = 2\<rparr>) ctx0 = Inr (ctx', sent)
           \<and> unat (byte_data_counter ctx') = length (replicate 250 \<lparr>get_packet_len = 2\<rparr>)
           \<and> heartbeats sent = map (\<lambda>i. data_message (word_of_nat i))
                 (filter (\<lambda>i. i mod 100 = 0) [Suc 0 ..< Suc (length (replicate 250 \<lparr>get_packet_len = 2\<rparr>))]))"
proof -
  note t = heartbeat_gating [where ctx = "ctx0\<lparr>byte_data_counter := 99\<rparr>" and packet = "\<lparr>get_packet_len = 2\<rparr>"
      and packets = "replicate 250 \<lparr>get_packet_len = 2\<rparr>"]
  have h1: "\<not> tx (ctx0\<lparr>byte_data_counter := 99\<rparr>) \<and> unat (rx_phase (ctx0\<lparr>byte_data_counter := 99\<rparr>)) < 24
      \<and> even (get_packet_len \<lparr>get_packet_len = 2\<rparr>)"
    by (simp add: ctx0_def)
  have h2: "byte_data_counter (ctx0\<lparr>byte_data_counter := 99\<rparr>) \<noteq> - 1"
    by (simp add: ctx0_def)
  have h3: "(\<forall>packet \<in> set (replicate 250 \<lparr>get_packet_len = 2\<rparr>). even (get_packet_len packet))
      \<and> length (replicate 250 \<lparr>get_packet_len = 2\<rparr>) < 2 ^ 64"
    by simp
  note c1 = t [THEN conjunct1, THEN mp, OF h1]
  note c2 = t [THEN conjunct2, THEN conjunct1, THEN mp, OF h3]
  from c1 h2 c2 show ?thesis by (intro conjI)
qed

section \<open>Twenty-four packets of two samples\<close>

text \<open>
  Claim C5, as stated, fails in the value of the signal metric: after 24 processed
  packets from the zero-initialised context \<open>snr\<close> is 24, not -76.
\<close>

theorem end_to_end_scenario_counterexample:
  "map_sum id (sint \<circ> snr \<circ> fst) (rx_run (replicate 24 \<lparr>get_packet_len = 2\<rparr>) ctx0) = Inr 24
   \<and> map_sum id (sint \<circ> snr \<circ> fst) (rx_run (replicate 24 \<lparr>get_packet_len = 2\<rparr>) ctx0) \<noteq> Inr (- 76)"
proof -
  from rx_run_24 obtain ctx' sent
    where "rx_run (replicate 24 \<lparr>get_packet_len = 2\<rparr>) ctx0 = Inr (ctx', sent)"
      and "sint (snr ctx') = 24"
    by blast
  then show ?thesis by simp
qed

text \<open>
  Claim C5, amended. From the zero-initialised context, with the transmit flag clear,
  24 consecutive receive packets of 2 samples each are all processed; the speaker
  samples sent are one full cycle of the table, each entry halved and sent as a
  stereo pair; the meter values sent are \<open>0, \<dots>, 23\<close> and \<open>snr\<close> ends at 24; no
  heartbeat is sent; the receive phase is back at 0 and the counter is 24.
\<close>

theorem end_to_end_scenario:
  "\<exists>ctx' sent. rx_run (replicate 24 \<lparr>get_packet_len = 2\<rparr>) ctx0 = Inr (ctx', sent)
     \<and> speaker_samples sent = concat (map (\<lambda>x. [x / 2, x / 2]) sin_table)
     \<and> meter_values sent = map int [0 ..< 24]
     \<and> sint (snr ctx') = 24
     \<and> heartbeats sent = []
     \<and> rx_phase ctx' = 0
     \<and> byte_data_counter ctx' = 24"
  by (rule rx_run_24)

section \<open>The phases stay in the table\<close>

text \<open>
  Claim C6. Both phases are 0 in the zero-initialised context. The advance step of the
  loops, \<open>(phase + 1) % 24\<close> stored back into the \<open>uint8_t\<close>, yields a value below 24
  from any phase. If both phases are below 24 before \<open>packet_rx\<close>, \<open>packet_tx\<close> or
  \<open>state_test\<close>, they are below 24 after it; and on a packet of even length the two
  packet handlers do return.
\<close>

theorem phase_domain_invariant:
  "phase_ok ctx0
   \<and> unat (word_of_nat ((unat (phase :: 8 word) + 1) mod 24) :: 8 word) = (unat phase + 1) mod 24
   \<and> unat (word_of_nat ((unat phase + 1) mod 24) :: 8 word) < 24
   \<and> (phase_ok ctx \<and> packet_rx packet ctx = Inr (ctx', sent) \<longrightarrow> phase_ok ctx')
   \<and> (phase_ok ctx \<and> packet_tx packet ctx = Inr (ctx', sent) \<longrightarrow> phase_ok ctx')
   \<and> (phase_ok ctx \<longrightarrow> phase_ok (fst (state_test state ctx)))
   \<and> (phase_ok ctx \<and> even (get_packet_len packet) \<longrightarrow>
        (\<exists>ctx1 sent1. packet_rx packet ctx = Inr (ctx1, sent1) \<and> phase_ok ctx1)
        \<and> (\<exists>ctx2 sent2. packet_tx packet ctx = Inr (ctx2, sent2) \<and> phase_ok ctx2))"
proof -
  have a: "phase_ok ctx0" by (simp add: phase_ok_def ctx0_def)
  have b: "unat (word_of_nat ((unat phase + 1) mod 24) :: 8 word) = (unat phase + 1) mod 24"
    by (rule unat_phase_step)
  have c: "unat (word_of_nat ((unat phase + 1) mod 24) :: 8 word) < 24"
    unfolding b by simp
  have d: "phase_ok ctx \<and> even (get_packet_len packet) \<longrightarrow>
        (\<exists>ctx1 sent1. packet_rx packet ctx = Inr (ctx1, sent1) \<and> phase_ok ctx1)
        \<and> (\<exists>ctx2 sent2. packet_tx packet ctx = Inr (ctx2, sent2) \<and> phase_ok ctx2)"
    using handlers_return [of ctx packet] packet_rx_phase_ok [of ctx packet]
      packet_tx_phase_ok [of ctx packet] by blast
  from a b c d packet_rx_phase_ok [of ctx packet ctx' sent] packet_tx_phase_ok [of ctx packet ctx' sent]
    state_test_phase_ok [of ctx state]
  show ?thesis by blast
qed

theorem phase_domain_invariant_witness:
  "phase_ok (ctx0\<lparr>rx_phase := 23\<rparr>)
   \<and> packet_rx \<lparr>get_packet_len = 2\<rparr> (ctx0\<lparr>rx_phase := 23\<rparr>) =
        Inr (ctx0\<lparr>rx_phase := 0, snr := 1, byte_data_counter := 1\<rparr>,
             [Send_data_packet (stereo 23 1) 2 SPEAKER_DATA, Meter_set_float_value ''junk-snr'' 0, Meters_send])
   \<and> phase_ok (ctx0\<lparr>rx_phase := 0, snr := 1, byte_data_counter := 1\<rparr>)
   \<and> phase_ok (ctx0\<lparr>tx_phase := 23, tx := True\<rparr>)
   \<and> packet_tx \<lparr>get_packet_len = 2\<rparr> (ctx0\<lparr>tx_phase := 23, tx := True\<rparr>) =
        Inr (ctx0\<lparr>tx_phase := 0, tx := True\<rparr>, [Send_data_packet (stereo 23 1) 2 TRANSMITTER_DATA])
   \<and> phase_ok (ctx0\<lparr>tx_phase := 0, tx := True\<rparr>)
   \<and> phase_ok (fst (state_test PTT_REQUESTED (ctx0\<lparr>rx_phase := 23\<rparr>)))
   \<and> unat (word_of_nat ((unat (23 :: 8 word) + 1) mod 24) :: 8 word) < 24"
proof -
  have ok1: "phase_ok (ctx0\<lparr>rx_phase := 23\<rparr>)" and ok2: "phase_ok (ctx0\<lparr>tx_phase := 23, tx := True\<rparr>)"
    by (simp_all add: phase_ok_def ctx0_def)
  have rx: "packet_rx \<lparr>get_packet_len = 2\<rparr> (ctx0\<lparr>rx_phase := 23\<rparr>) =
        Inr (ctx0\<lparr>rx_phase := 0, snr := 1, byte_data_counter := 1\<rparr>,
             [Send_data_packet (stereo 23 1) 2 SPEAKER_DATA, Meter_set_float_value ''junk-snr'' 0, Meters_send])"
    by (subst packet_rx_even) (simp_all add: ctx0_def)
  have tx: "packet_tx \<lparr>get_packet_len = 2\<rparr> (ctx0\<lparr>tx_phase := 23, tx := True\<rparr>) =
        Inr (ctx0\<lparr>tx_phase := 0, tx := True\<rparr>, [Send_data_packet (stereo 23 1) 2 TRANSMITTER_DATA])"
    by (subst packet_tx_even) (simp_all add: ctx0_def)
  note t1 = phase_domain_invariant [where ctx = "ctx0\<lparr>rx_phase := 23\<rparr>" and packet = "\<lparr>get_packet_len = 2\<rparr>"
      and ctx' = "ctx0\<lparr>rx_phase := 0, snr := 1, byte_data_counter := 1\<rparr>"
      and sent = "[Send_data_packet (stereo 23 1) 2 SPEAKER_DATA, Meter_set_float_value ''junk-snr'' 0, Meters_send]"
      and state = PTT_REQUESTED and phase = 23]
  note t2 = phase_domain_invariant [where ctx = "ctx0\<lparr>tx_phase := 23, tx := True\<rparr>" and packet = "\<lparr>get_packet_len = 2\<rparr>"
      and ctx' = "ctx0\<lparr>tx_phase := 0, tx := True\<rparr>"
      and sent = "[Send_data_packet (stereo 23 1) 2 TRANSMITTER_DATA]"]
  from t1 t2 ok1 ok2 rx tx show ?thesis by blast
qed

section \<open>State changes\<close>

text \<open>
  Claim C7. For a state other than \<open>ACTIVE\<close>, \<open>INACTIVE\<close>, \<open>PTT_REQUESTED\<close> and
  \<open>UNKEY_REQUESTED\<close>, \<open>state_test\<close> writes the line "unknown state received" to the
  error stream and does nothing else: the context is returned as it was, the transmit
  flag with it. The handler has no failing branch, so nothing propagates.
\<close>

theorem unknown_state_unchanged:
  "state \<notin> {ACTIVE, INACTIVE, PTT_REQUESTED, UNKEY_REQUESTED}
   \<Longrightarrow> state_test state ctx = (ctx, [Stderr ''unknown state received''])"
  by (cases state) simp_all

theorem unknown_state_unchanged_witness:
  "UNLISTED 7 \<notin> {ACTIVE, INACTIVE, PTT_REQUESTED, UNKEY_REQUESTED}
   \<and> state_test (UNLISTED 7) (ctx0\<lparr>tx := True\<rparr>) = (ctx0\<lparr>tx := True\<rparr>, [Stderr ''unknown state received''])"
  using unknown_state_unchanged [of "UNLISTED 7" "ctx0\<lparr>tx := True\<rparr>"] by simp

section \<open>The heartbeat message\<close>

text \<open>
  Claim C8, as stated, fails in the bytes sent: the format ends in a line feed and all
  \<open>len + 1\<close> bytes of the array are sent, so on the 100th processed packet the message
  is the text "Callback Counter: 100" followed by a line feed and the terminating NUL,
  23 bytes and not the 21 of the text alone.
\<close>

theorem heartbeat_message_counterexample:
  "map_sum id (heartbeats \<circ> snd) (rx_run (replicate 100 \<lparr>get_packet_len = 2\<rparr>) ctx0) =
     Inr [''Callback Counter: 100'' @ [CHR 0x0A, CHR 0x00]]
   \<and> ''Callback Counter: 100'' @ [CHR 0x0A, CHR 0x00] \<noteq> ''Callback Counter: 100''"
proof -
  from rx_run_100 obtain ctx' sent
    where "rx_run (replicate 100 \<lparr>get_packet_len = 2\<rparr>) ctx0 = Inr (ctx', sent)"
      and "heartbeats sent = [''Callback Counter: 100'' @ [CHR 0x0A, CHR 0x00]]"
    by blast
  then show ?thesis by simp
qed

text \<open>
  Claim C8, amended. When the heartbeat fires, the one message sent is the text
  "Callback Counter: " followed by the incremented counter in decimal, a line feed and
  a NUL byte. The counter is printed by \<open>%ld\<close>, that is as a signed 64-bit number: below
  \<open>2 ^ 63\<close> the digits are those of the counter value (\<open>dec_nat\<close> prints a number whose
  digits denote it). On the 100th processed packet from the zero-initialised context
  the message is "Callback Counter: 100", line feed, NUL.
\<close>

theorem heartbeat_message:
  "(\<not> tx ctx \<and> unat (rx_phase ctx) < 24 \<and> even (get_packet_len packet)
      \<and> unat (byte_data_counter ctx + 1) mod 100 = 0 \<longrightarrow>
      (\<exists>ctx' sent. packet_rx packet ctx = Inr (ctx', sent)
         \<and> byte_data_counter ctx' = byte_data_counter ctx + 1
         \<and> heartbeats sent =
              [''Callback Counter: '' @ dec_int (sint (byte_data_counter ctx')) @ [CHR 0x0A, CHR 0x00]]))
   \<and> (0 \<le> sint (c :: 64 word) \<longrightarrow> dec_int (sint c) = dec_nat (unat c))
   \<and> dec_value (dec_nat n) = n
   \<and> dec_nat 100 = ''100''
   \<and> (\<exists>ctx' sent. rx_run (replicate 100 \<lparr>get_packet_len = 2\<rparr>) ctx0 = Inr (ctx', sent)
         \<and> heartbeats sent = [''Callback Counter: 100'' @ [CHR 0x0A, CHR 0x00]])"
proof -
  have a: "\<not> tx ctx \<and> unat (rx_phase ctx) < 24 \<and> even (get_packet_len packet)
      \<and> unat (byte_data_counter ctx + 1) mod 100 = 0 \<longrightarrow>
      (\<exists>ctx' sent. packet_rx packet ctx = Inr (ctx', sent)
         \<and> byte_data_counter ctx' = byte_data_counter ctx + 1
         \<and> heartbeats sent =
              [''Callback Counter: '' @ dec_int (sint (byte_data_counter ctx')) @ [CHR 0x0A, CHR 0x00]])"
    using packet_rx_heartbeat [of ctx packet] by (intro impI) simp
  have b: "0 \<le> sint c \<longrightarrow> dec_int (sint c) = dec_nat (unat c)"
    using dec_int_sint [of c] by blast
  from a b dec_value_dec_nat [of n] dec_nat_100 rx_run_100 show ?thesis by (intro conjI)
qed

theorem heartbeat_message_witness:
  "(\<exists>ctx' sent. packet_rx \<lparr>get_packet_len = 2\<rparr> (ctx0\<lparr>byte_data_counter := 99\<rparr>) = Inr (ctx', sent)
         \<and> byte_data_counter ctx' = byte_data_counter (ctx0\<lparr>byte_data_counter := 99\<rparr>) + 1
         \<and> heartbeats sent =
              [''Callback Counter: '' @ dec_int (sint (byte_data_counter ctx')) @ [CHR 0x0A, CHR 0x00]])
   \<and> dec_int (sint (100 :: 64 word)) = dec_nat (unat (100 :: 64 word))"
proof -
  note t = heartbeat_message [where ctx = "ctx0\<lparr>byte_data_counter := 99\<rparr>" and packet = "\<lparr>get_packet_len = 2\<rparr>"
      and c = 100]
  have h1: "\<not> tx (ctx0\<lparr>byte_data_counter := 99\<rparr>) \<and> unat (rx_phase (ctx0\<lparr>byte_data_counter := 99\<rparr>)) < 24
      \<and> even (get_packet_len \<lparr>get_packet_len = 2\<rparr>)
      \<and> unat (byte_data_counter (ctx0\<lparr>byte_data_counter := 99\<rparr>) + 1) mod 100 = 0"
    by (simp add: ctx0_def)
  have h2: "0 \<le> sint (100 :: 64 word)" by simp
  note c1 = t [THEN conjunct1, THEN mp, OF h1]
  note c2 = t [THEN conjunct2, THEN conjunct1, THEN mp, OF h2]
  from c1 c2 show ?thesis by (rule conjI)
qed

section \<open>Writes past the buffer\<close>

text \<open>
  Claim C9. The loop writes the indices \<open>i\<close> and \<open>i + 1\<close> for \<open>i = 0, 2, 4, \<dots>\<close> below
  the packet length into a buffer of exactly that length. With the phase in the table,
  it finishes without a write out of range if and only if the length is even; for an
  odd length the last iteration writes at the index equal to the length, one element
  past the end. Both handlers inherit this: \<open>packet_rx\<close> when not transmitting and
  \<open>packet_tx\<close> when transmitting fault on every packet of odd length. The zero fill
  before the loop has no bearing on it.
\<close>

theorem buffer_write_safety:
  "(unat phase < 24 \<longrightarrow>
      ((\<exists>filled. fill_samples len 0 (replicate len 0) phase = Inr filled) \<longleftrightarrow> even len)
      \<and> (odd len \<longrightarrow> fill_samples len 0 (replicate len 0) phase = Inl (Buffer_index_out_of_range len)))
   \<and> (\<not> tx ctx \<and> unat (rx_phase ctx) < 24 \<and> odd (get_packet_len packet) \<longrightarrow>
        packet_rx packet ctx = Inl (Buffer_index_out_of_range (get_packet_len packet)))
   \<and> (tx ctx \<and> unat (tx_phase ctx) < 24 \<and> odd (get_packet_len packet) \<longrightarrow>
        packet_tx packet ctx = Inl (Buffer_index_out_of_range (get_packet_len packet)))"
proof -
  have a: "fill_samples len 0 (replicate len 0) phase = Inl (Buffer_index_out_of_range len)"
    if "unat phase < 24" "odd len"
    using fill_samples_odd [of len 0 "replicate len 0" phase] that by simp
  have b: "\<exists>filled. fill_samples len 0 (replicate len 0) phase = Inr filled"
    if "unat phase < 24" "even len"
    using fill_samples_even [of len 0 "replicate len 0" phase] that by simp
  have c: "(\<exists>filled. fill_samples len 0 (replicate len 0) phase = Inr filled) \<longleftrightarrow> even len"
    if "unat phase < 24"
  proof
    assume "\<exists>filled. fill_samples len 0 (replicate len 0) phase = Inr filled"
    then show "even len" using a [OF that] by (cases "even len") auto
  next
    assume "even len"
    then show "\<exists>filled. fill_samples len 0 (replicate len 0) phase = Inr filled"
      by (rule b [OF that])
  qed
  from a c packet_rx_odd [of ctx packet] packet_tx_odd [of ctx packet] show ?thesis by blast
qed

theorem buffer_write_safety_witness:
  "fill_samples 3 0 (replicate 3 0) 0 = Inl (Buffer_index_out_of_range 3)
   \<and> (\<exists>filled. fill_samples 4 0 (replicate 4 0) 0 = Inr filled)
   \<and> packet_rx \<lparr>get_packet_len = 3\<rparr> ctx0 = Inl (Buffer_index_out_of_range (get_packet_len \<lparr>get_packet_len = 3\<rparr>))
   \<and> packet_tx \<lparr>get_packet_len = 3\<rparr> (ctx0\<lparr>tx := True\<rparr>) = Inl (Buffer_index_out_of_range (get_packet_len \<lparr>get_packet_len = 3\<rparr>))"
proof -
  note t1 = buffer_write_safety [where phase = 0 and len = 3 and ctx = ctx0 and packet = "\<lparr>get_packet_len = 3\<rparr>"]
  note t2 = buffer_write_safety [where phase = 0 and len = 4 and ctx = "ctx0\<lparr>tx := True\<rparr>" and packet = "\<lparr>get_packet_len = 3\<rparr>"]
  have h0: "unat (0 :: 8 word) < 24" by simp
  have h1: "odd (3 :: nat)" and h2: "even (4 :: nat)" by simp_all
  have h3: "\<not> tx ctx0 \<and> unat (rx_phase ctx0) < 24 \<and> odd (get_packet_len \<lparr>get_packet_len = 3\<rparr>)"
    by (simp add: ctx0_def)
  have h4: "tx (ctx0\<lparr>tx := True\<rparr>) \<and> unat (tx_phase (ctx0\<lparr>tx := True\<rparr>)) < 24 \<and> odd (get_packet_len \<lparr>get_packet_len = 3\<rparr>)"
    by (simp add: ctx0_def)
  from t1 t2 h0 h1 h2 h3 h4 show ?thesis by blast
qed

end
